theory Spec2Isabelle
  imports Complex_Main "HOL-Library.Word" "HOL-Library.Log_Nat"
begin

unbundle bit_operations_syntax

section \<open>Binary64 arithmetic as used by the interpolation search\<close>

text \<open>
  \<open>GetSequenceNumber\<close> computes its probe index in \<open>float64\<close>.  Every value that
  occurs there is finite and non-negative, so a \<open>float64\<close> is modelled by the natural
  number of units of \<open>2\<^sup>-\<^sup>1\<^sup>0\<^sup>7\<^sup>4\<close> (the smallest positive binary64 value) it holds.
  A binary64 value has at most 53 significant bits; every operation rounds its exact
  result to the nearest such value, ties to even.  Overflow to infinity is not
  modelled: the values of the search stay below \<open>2\<^sup>6\<^sup>5\<close>.  A division by zero
  (NaN or infinity in Go) is \<open>None\<close>.
\<close>

type_synonym f64 = nat

definition f64_unit :: nat where
  "f64_unit = 2 ^ 1074"

text \<open>The integer nearest to \<open>p / q\<close>, ties to the even one.\<close>

definition round_half_even :: "nat \<Rightarrow> nat \<Rightarrow> nat" where
  "round_half_even p q =
     (let f = p div q; r = p mod q
      in if 2 * r < q then f
         else if q < 2 * r then f + 1
         else if even f then f else f + 1)"

text \<open>The binary64 value nearest to \<open>p / q\<close> units: 53 significant bits are kept.\<close>

definition f64_round :: "nat \<Rightarrow> nat \<Rightarrow> f64" where
  "f64_round p q =
     (let l = floorlog 2 (p div q)
      in if l \<le> 53 then round_half_even p q
         else 2 ^ (l - 53) * round_half_even p (q * 2 ^ (l - 53)))"

definition f64_of_nat :: "nat \<Rightarrow> f64" where
  "f64_of_nat n = f64_round (n * f64_unit) 1"

definition f64_div :: "f64 \<Rightarrow> f64 \<Rightarrow> f64 option" where
  "f64_div x y = (if y = 0 then None else Some (f64_round (x * f64_unit) y))"

definition f64_mul :: "f64 \<Rightarrow> f64 \<Rightarrow> f64" where
  "f64_mul x y = f64_round (x * y) f64_unit"

definition f64_add :: "f64 \<Rightarrow> f64 \<Rightarrow> f64" where
  "f64_add x y = f64_round (x + y) 1"

text \<open>\<open>math.Floor\<close> of a non-negative value, read as an integer.\<close>

definition f64_floor :: "f64 \<Rightarrow> nat" where
  "f64_floor x = x div f64_unit"

section \<open>MessageSequence.GetSequenceNumber\<close>

text \<open>
  What a call does: it returns a value, or panics on an index out of range, or
  converts a \<open>float64\<close> that \<open>uint32\<close> cannot hold (NaN or at least \<open>2\<^sup>3\<^sup>2\<close>), whose
  result Go leaves to the implementation.  A call that never returns is \<open>None\<close>.
\<close>

datatype 'a outcome = Return 'a | IndexOutOfRange | UndefinedConversion

type_synonym MessageSequence = "64 word list"

text \<open>
  The probe of one iteration:
  \<open>ratio := float64(uid - minUID) / float64(maxUID - minUID)\<close>,
  \<open>checkIndex := uint32(math.Floor(float64(minIndex) + ratio*float64(maxIndex-minIndex)))\<close>.
  The subtractions are those of \<open>uint64\<close> and \<open>uint32\<close>.
\<close>

definition checkIndex_of ::
  "64 word \<Rightarrow> 32 word \<Rightarrow> 32 word \<Rightarrow> 64 word \<Rightarrow> 64 word \<Rightarrow> 32 word option" where
  "checkIndex_of uid minIndex maxIndex minUID maxUID =
     (case f64_div (f64_of_nat (unat (uid - minUID))) (f64_of_nat (unat (maxUID - minUID))) of
        None \<Rightarrow> None
      | Some ratio \<Rightarrow>
          (let fl = f64_floor (f64_add (f64_of_nat (unat minIndex))
                                 (f64_mul ratio (f64_of_nat (unat (maxIndex - minIndex)))))
           in if fl < 2 ^ 32 then Some (word_of_nat fl) else None))"

text \<open>
  The variables of the loop, and one run of its body: the body returns, panics, or
  goes round again with new bounds.
\<close>

record search_state =
  minIndex :: "32 word"
  maxIndex :: "32 word"
  minUID :: "64 word"
  maxUID :: "64 word"

datatype search_step = Done "32 word outcome" | Continue search_state

definition search_body :: "MessageSequence \<Rightarrow> 64 word \<Rightarrow> search_state \<Rightarrow> search_step" where
  "search_body uids uid st =
     (case checkIndex_of uid (minIndex st) (maxIndex st) (minUID st) (maxUID st) of
        None \<Rightarrow> Done UndefinedConversion
      | Some checkIndex \<Rightarrow>
          if length uids \<le> unat checkIndex then Done IndexOutOfRange
          else if uids ! unat checkIndex = uid then Done (Return (checkIndex + 1))
          else if uid < uids ! unat checkIndex
            then Continue (st\<lparr>maxUID := uids ! unat checkIndex, maxIndex := checkIndex\<rparr>)
          else if length uids \<le> unat (checkIndex + 1) then Done IndexOutOfRange
          else if uid < uids ! unat (checkIndex + 1) then Done (Return (checkIndex + 1 + 1))
          else Continue (st\<lparr>minIndex := checkIndex + 1, minUID := uids ! unat (checkIndex + 1)\<rparr>))"

partial_function (option) search_loop ::
  "MessageSequence \<Rightarrow> 64 word \<Rightarrow> search_state \<Rightarrow> 32 word outcome option" where
  "search_loop uids uid st =
     (case search_body uids uid st of
        Done r \<Rightarrow> Some r
      | Continue st' \<Rightarrow> search_loop uids uid st')"

declare search_loop.simps [code]

text \<open>The state the loop starts from: the whole sequence.\<close>

definition search_init :: "MessageSequence \<Rightarrow> search_state" where
  "search_init uids =
     \<lparr>minIndex = 0, maxIndex = word_of_nat (length uids - 1),
      minUID = uids ! 0, maxUID = uids ! unat (word_of_nat (length uids - 1) :: 32 word)\<rparr>"

definition GetSequenceNumber :: "MessageSequence \<Rightarrow> 64 word \<Rightarrow> 32 word outcome option" where
  "GetSequenceNumber uids uid =
     (if length uids = 0 then Some (Return 1)
      else if uid < uids ! 0 then Some (Return 1)
      else if uids ! (length uids - 1) < uid then Some (Return (word_of_nat (length uids + 1)))
      else if length uids = 1 then Some (Return 1)
      else search_loop uids uid (search_init uids))"

text \<open>The state at the start of the \<open>n\<close>-th iteration, if the loop gets there.\<close>

fun search_iter :: "MessageSequence \<Rightarrow> 64 word \<Rightarrow> nat \<Rightarrow> search_state \<Rightarrow> search_step" where
  "search_iter uids uid 0 st = Continue st"
| "search_iter uids uid (Suc n) st =
     (case search_body uids uid st of
        Done r \<Rightarrow> Done r
      | Continue st' \<Rightarrow> search_iter uids uid n st')"

subsection \<open>Notions used to state and prove the properties of the search\<close>

text \<open>A value with at most 53 significant bits.\<close>

definition f64_repr :: "nat \<Rightarrow> bool" where
  "f64_repr x \<longleftrightarrow> (\<exists>m j. x = m * 2 ^ j \<and> m < 2 ^ 53)"

text \<open>The probe as a function of the four numbers it is computed from.\<close>

definition probe :: "nat \<Rightarrow> nat \<Rightarrow> nat \<Rightarrow> nat \<Rightarrow> nat option" where
  "probe a b mi n =
    (case f64_div (f64_of_nat a) (f64_of_nat b) of None \<Rightarrow> None
     | Some ratio \<Rightarrow> Some (f64_floor (f64_add (f64_of_nat mi) (f64_mul ratio (f64_of_nat n)))))"

text \<open>
  The insert position of \<open>uid\<close> in \<open>uids\<close>: how many identifiers are below it.  The
  sequence number the search is to return is one more.
\<close>

definition position :: "MessageSequence \<Rightarrow> 64 word \<Rightarrow> nat" where
  "position uids uid = length (filter (\<lambda>x. x < uid) uids)"

text \<open>
  A bound under which the probe arithmetic is exact enough: the span of the identifiers
  times the number of messages is at most \<open>2\<^sup>5\<^sup>2\<close>.
\<close>

definition interpolation_exact :: "MessageSequence \<Rightarrow> bool" where
  "interpolation_exact uids \<longleftrightarrow> unat (last uids - hd uids) * length uids \<le> 2 ^ 52"

text \<open>What holds of the loop variables at the start of every iteration.\<close>

definition search_inv :: "MessageSequence \<Rightarrow> 64 word \<Rightarrow> search_state \<Rightarrow> bool" where
  "search_inv uids uid st \<longleftrightarrow>
     unat (minIndex st) < unat (maxIndex st) \<and> unat (maxIndex st) < length uids \<and>
     minUID st = uids ! unat (minIndex st) \<and> maxUID st = uids ! unat (maxIndex st) \<and>
     minUID st \<le> uid \<and> uid \<le> maxUID st"

section \<open>What the mailbox is built on\<close>

subsection \<open>Errors, flags, messages\<close>

text \<open>
  A Go \<open>error\<close> result is an \<open>error option\<close>: \<open>None\<close> is \<open>nil\<close>.  The constructors name
  the errors of \<open>mailbox.go\<close> and of the store and codec it calls.
\<close>

datatype error =
    IOError
  | ErrNotFound
  | ErrDuplicateID
  | DecodeFailed
  | SerializeFailed
  | ConvertFailed
  | UnableToSave
  | InvalidSequenceNumber
  | InvalidUid
  | CannotChangeDateReceived
  | errAckFound

type_synonym bytes = "8 word list"

text \<open>
  \<open>types.Flags\<close> of the imported IMAP server package: a bit set with
  \<open>HasFlags(check) = (f & check == check)\<close>.  Only three of its bits are used here.
\<close>

type_synonym Flags = "8 word"

definition FlagSeen :: Flags where "FlagSeen = 1"
definition FlagDeleted :: Flags where "FlagDeleted = 8"
definition FlagRecent :: Flags where "FlagRecent = 32"

definition HasFlags :: "Flags \<Rightarrow> Flags \<Rightarrow> bool" where
  "HasFlags f check \<longleftrightarrow> f AND check = check"

text \<open>
  The message entity.  \<open>ImapData\<close> without its back reference to the mailbox; of the
  delivery state only the field \<open>mailbox.go\<close> writes; \<open>Encoding\<close> is what
  \<open>msg.Message.Encoding()\<close> returns, the suffix a message is stored under.
\<close>

text \<open>
  \<open>time.Time\<close> is a struct of three fields: \<open>wall\<close> (\<open>uint64\<close>: a flag for a monotonic
  reading, seconds and nanoseconds), \<open>ext\<close> (\<open>int64\<close>: the monotonic reading, or the
  seconds since year 1) and \<open>loc\<close> (a \<open>*Location\<close>: here the address, 0 for \<open>nil\<close>).
  \<open>!=\<close> on two times compares the three fields, so two times of the same instant can
  differ.
\<close>

record Time =
  wall :: "64 word"
  ext :: "64 word"
  loc :: nat

record ImapData =
  UID :: "64 word"
  SequenceNumber :: "32 word"
  Flags :: Flags
  TimeReceived :: Time

record MessageState =
  AckReceived :: bool

record Bitmessage =
  ImapData :: ImapData
  Ack :: bytes
  state :: MessageState
  Encoding :: "64 word"
  Object :: bytes

text \<open>
  Modelled from the spec: the message codec (\<open>DecodeBitmessage\<close>, \<open>Serialize\<close>) and the
  conversion of mail into messages (\<open>NewBitmessageFromSMTP\<close>,
  \<open>NewBitmessageDraftFromSMTP\<close>) are not among the sources.  They are parameters:
  \<open>decode(bytes) -> (messageEntity, err)\<close> and \<open>encode() -> (bytes, err)\<close>, with \<open>None\<close> for
  the error.  A decoded entity carries its mail metadata (\<open>refresh\<close> reads
  \<open>entry.ImapData.Flags\<close> with no check).
\<close>

record codec =
  DecodeBitmessage :: "bytes \<Rightarrow> Bitmessage option"
  Serialize :: "Bitmessage \<Rightarrow> bytes option"
  NewBitmessageFromSMTP :: "bytes \<Rightarrow> Bitmessage option"
  NewBitmessageDraftFromSMTP :: "bytes \<Rightarrow> Bitmessage option"

subsection \<open>The message store\<close>

text \<open>
  Modelled from the spec: \<open>store.Folder\<close> is not among the sources.  The spec gives it
  as keyed byte-blob storage with \<open>nextIdentifier() -> id\<close>,
  \<open>forEachMessage(fromID, toID, tag, visit(id, tag, bytes) -> stopOrError)\<close>,
  \<open>getMessage(id) -> (tag, bytes, err)\<close>, \<open>insert(bytes, tag) -> id\<close>,
  \<open>insertAt(id, bytes, tag) -> err\<close> and \<open>delete(id) -> err\<close>, enumerating by identifier.
  The folder is the list of its entries \<open>(id, tag, bytes)\<close> in the order the enumeration
  visits them, and the next identifier.  An identifier bound or a tag of 0 means no
  bound and any tag (\<open>refresh\<close> enumerates every message with \<open>(0, 0, 2)\<close>).  A store
  I/O failure is part of the folder's state: \<open>failing\<close> holds the operations that fail.
\<close>

datatype store_op = OpForEach | OpGet | OpInsertNew | OpInsert | OpDelete

type_synonym entry = "64 word \<times> 64 word \<times> bytes"

record Folder =
  entries :: "entry list"
  next_id :: "64 word"
  failing :: "store_op set"

definition NextID :: "Folder \<Rightarrow> 64 word" where
  "NextID f = next_id f"

definition in_range :: "64 word \<Rightarrow> 64 word \<Rightarrow> 64 word \<Rightarrow> entry \<Rightarrow> bool" where
  "in_range lowID highID suffix e =
     (case e of (ident, sfx, msg) \<Rightarrow>
        (lowID = 0 \<or> lowID \<le> ident) \<and> (highID = 0 \<or> ident \<le> highID) \<and> (suffix = 0 \<or> sfx = suffix))"

text \<open>
  The enumeration calls \<open>visit\<close> on each entry in turn.  The callbacks of \<open>mailbox.go\<close>
  are closures that update variables around them: \<open>visit\<close> takes those variables and
  returns them with its error.  The first error ends the enumeration and is returned.
\<close>

fun for_each :: "(entry \<Rightarrow> 's \<Rightarrow> error option \<times> 's) \<Rightarrow> entry list \<Rightarrow> 's \<Rightarrow> error option \<times> 's" where
  "for_each visit [] s = (None, s)"
| "for_each visit (e # es) s =
     (case visit e s of
        (Some err, s') \<Rightarrow> (Some err, s')
      | (None, s') \<Rightarrow> for_each visit es s')"

definition ForEachMessage ::
  "Folder \<Rightarrow> 64 word \<Rightarrow> 64 word \<Rightarrow> 64 word \<Rightarrow> (entry \<Rightarrow> 's \<Rightarrow> error option \<times> 's) \<Rightarrow> 's
     \<Rightarrow> error option \<times> 's" where
  "ForEachMessage f lowID highID suffix visit s =
     (if OpForEach \<in> failing f then (Some IOError, s)
      else for_each visit (filter (in_range lowID highID suffix) (entries f)) s)"

definition GetMessage :: "Folder \<Rightarrow> 64 word \<Rightarrow> error + (64 word \<times> bytes)" where
  "GetMessage f ident =
     (if OpGet \<in> failing f then Inl IOError
      else case find (\<lambda>e. fst e = ident) (entries f) of
             None \<Rightarrow> Inl ErrNotFound
           | Some e \<Rightarrow> Inr (snd e))"

text \<open>Deleting removes the first entry under the identifier.\<close>

fun delete_entry :: "64 word \<Rightarrow> entry list \<Rightarrow> entry list" where
  "delete_entry ident [] = []"
| "delete_entry ident (e # es) = (if fst e = ident then es else e # delete_entry ident es)"

definition DeleteMessage :: "Folder \<Rightarrow> 64 word \<Rightarrow> error + Folder" where
  "DeleteMessage f ident =
     (if OpDelete \<in> failing f then Inl IOError
      else if ident \<notin> fst ` set (entries f) then Inl ErrNotFound
      else Inr (f\<lparr>entries := delete_entry ident (entries f)\<rparr>))"

text \<open>An inserted entry takes its place in the order of the identifiers.\<close>

definition InsertNewMessage :: "Folder \<Rightarrow> bytes \<Rightarrow> 64 word \<Rightarrow> error + (64 word \<times> Folder)" where
  "InsertNewMessage f msg suffix =
     (if OpInsertNew \<in> failing f then Inl IOError
      else Inr (next_id f,
                f\<lparr>entries := insort_key fst (next_id f, suffix, msg) (entries f),
                  next_id := next_id f + 1\<rparr>))"

definition InsertMessage :: "Folder \<Rightarrow> 64 word \<Rightarrow> bytes \<Rightarrow> 64 word \<Rightarrow> error + Folder" where
  "InsertMessage f ident msg suffix =
     (if OpInsert \<in> failing f then Inl IOError
      else if ident \<in> fst ` set (entries f) then Inl ErrDuplicateID
      else Inr (f\<lparr>entries := insort_key fst (ident, suffix, msg) (entries f),
                  next_id := max (next_id f) (ident + 1)\<rparr>))"

section \<open>The mailbox\<close>

text \<open>
  The fields of \<open>mailbox\<close> that its methods read and write (the lock and the address
  book are left out: every method here is taken as one atomic step).  The store is
  held by value: a method that changes it returns the mailbox with the new store.
\<close>

record mailbox =
  mbox :: Folder
  sub :: "(Bitmessage \<Rightarrow> bool) option"
  drafts :: bool
  uids :: MessageSequence
  numRecent :: "32 word"
  numUnseen :: "32 word"
  nextUID :: "32 word"

text \<open>
  A method that looks an identifier up runs \<open>GetSequenceNumber\<close>, and so may not
  return (\<open>None\<close>) or may panic.  \<open>then_run\<close> passes a returned value on and hands any
  other outcome through.
\<close>

definition then_run :: "'a outcome option \<Rightarrow> ('a \<Rightarrow> 'b outcome option) \<Rightarrow> 'b outcome option" where
  "then_run m k =
     (case m of
        None \<Rightarrow> None
      | Some (Return x) \<Rightarrow> k x
      | Some IndexOutOfRange \<Rightarrow> Some IndexOutOfRange
      | Some UndefinedConversion \<Rightarrow> Some UndefinedConversion)"

text \<open>\<open>xs[i]\<close>: a panic when the index is out of range.\<close>

definition index :: "'a list \<Rightarrow> nat \<Rightarrow> 'a outcome option" where
  "index xs i = (if i < length xs then Some (Return (xs ! i)) else Some IndexOutOfRange)"

text \<open>The membership test \<open>box.sub != nil && !box.sub(entry)\<close>.\<close>

definition rejected :: "mailbox \<Rightarrow> Bitmessage \<Rightarrow> bool" where
  "rejected box entry = (case sub box of None \<Rightarrow> False | Some p \<Rightarrow> \<not> p entry)"

definition decodeBitmessageForImap ::
  "codec \<Rightarrow> 64 word \<Rightarrow> 32 word \<Rightarrow> bytes \<Rightarrow> Bitmessage option" where
  "decodeBitmessageForImap cd uid seqno msg =
     (case DecodeBitmessage cd msg of
        None \<Rightarrow> None
      | Some b \<Rightarrow> Some (b\<lparr>ImapData := (ImapData b)\<lparr>UID := uid, SequenceNumber := seqno\<rparr>\<rparr>))"

definition updateMailboxStats :: "mailbox \<Rightarrow> Bitmessage \<Rightarrow> mailbox" where
  "updateMailboxStats box entry =
     (let box1 = (if HasFlags (Flags (ImapData entry)) FlagRecent
                  then box\<lparr>numRecent := numRecent box + 1\<rparr> else box)
      in if \<not> HasFlags (Flags (ImapData entry)) FlagSeen
         then box1\<lparr>numUnseen := numUnseen box1 + 1\<rparr> else box1)"

text \<open>
  The callback of \<open>refresh\<close>, on the mailbox and the list of identifiers it collects.  A
  decode failure returns what \<open>imapLog.Errorf\<close> returns, the logged message as an
  error, so it ends the enumeration.
\<close>

definition refresh_visit :: "codec \<Rightarrow> entry \<Rightarrow> mailbox \<times> 64 word list \<Rightarrow> error option \<times> mailbox \<times> 64 word list" where
  "refresh_visit cd e s =
     (case e of (ident, suffix, msg) \<Rightarrow>
      case s of (box, list) \<Rightarrow>
        (case DecodeBitmessage cd msg of
           None \<Rightarrow> (Some DecodeFailed, box, list)
         | Some entry \<Rightarrow>
             if rejected box entry then (None, box, list)
             else (None, updateMailboxStats box entry, list @ [ident])))"

definition refresh :: "codec \<Rightarrow> mailbox \<Rightarrow> error option \<times> mailbox" where
  "refresh cd box =
     (let box0 = box\<lparr>nextUID := ucast (NextID (mbox box)), numRecent := 0, numUnseen := 0\<rparr>
      in case ForEachMessage (mbox box0) 0 0 2 (refresh_visit cd) (box0, []) of
           (Some err, box1, list) \<Rightarrow> (Some err, box1)
         | (None, box1, list) \<Rightarrow> (None, box1\<lparr>uids := sort list\<rparr>))"

definition NextUID :: "mailbox \<Rightarrow> 32 word" where
  "NextUID box = nextUID box"

definition LastUID :: "mailbox \<Rightarrow> 32 word outcome" where
  "LastUID box =
     (if length (uids box) = 0 then IndexOutOfRange
      else Return (ucast (uids box ! (length (uids box) - 1))))"

definition messages :: "mailbox \<Rightarrow> 32 word" where
  "messages box = word_of_nat (length (uids box))"

definition bmsgByUID :: "codec \<Rightarrow> mailbox \<Rightarrow> 64 word \<Rightarrow> Bitmessage option outcome option" where
  "bmsgByUID cd box uid =
     then_run (GetSequenceNumber (uids box) uid) (\<lambda>seqno.
       if word_of_nat (length (uids box)) < seqno then Some (Return None)
       else then_run (index (uids box) (unat (seqno - 1))) (\<lambda>found.
         if found \<noteq> uid then Some (Return None)
         else case GetMessage (mbox box) uid of
                Inl err \<Rightarrow> Some (Return None)
              | Inr (suffix, msg) \<Rightarrow>
                  if suffix \<noteq> 2 then Some (Return None)
                  else Some (Return (decodeBitmessageForImap cd uid seqno msg))))"

definition bitmessageBySequenceNumber ::
  "codec \<Rightarrow> mailbox \<Rightarrow> 32 word \<Rightarrow> Bitmessage option outcome option" where
  "bitmessageBySequenceNumber cd box seqno =
     (if seqno < 1 \<or> messages box < seqno then Some (Return None)
      else then_run (index (uids box) (unat (seqno - 1))) (\<lambda>uid. bmsgByUID cd box uid))"

definition lastBitmessage :: "codec \<Rightarrow> mailbox \<Rightarrow> Bitmessage option outcome option" where
  "lastBitmessage cd box =
     (if messages box = 0 then Some (Return None)
      else then_run (index (uids box) (length (uids box) - 1)) (\<lambda>uid. bmsgByUID cd box uid))"

text \<open>
  The callback of \<open>getRange\<close>, on the slice it fills and its counter \<open>i\<close>.  A message
  that does not decode is skipped: the callback returns \<open>nil\<close>.
\<close>

definition getRange_visit ::
  "codec \<Rightarrow> mailbox \<Rightarrow> 32 word \<Rightarrow> entry \<Rightarrow> Bitmessage list \<times> 32 word
     \<Rightarrow> error option \<times> Bitmessage list \<times> 32 word" where
  "getRange_visit cd box startSequence e s =
     (case e of (ident, suffix, msg) \<Rightarrow>
      case s of (bitmessages, i) \<Rightarrow>
        (case decodeBitmessageForImap cd ident (startSequence + i) msg of
           None \<Rightarrow> (None, bitmessages, i)
         | Some bm \<Rightarrow>
             if rejected box bm then (None, bitmessages, i)
             else (None, bitmessages @ [bm], i + 1)))"

text \<open>A slice result is \<open>None\<close> for \<open>nil\<close> (\<open>bitmessageSetByUID\<close> tests for it).\<close>

definition getRange ::
  "codec \<Rightarrow> mailbox \<Rightarrow> 64 word \<Rightarrow> 64 word \<Rightarrow> 32 word \<Rightarrow> 32 word \<Rightarrow> Bitmessage list option" where
  "getRange cd box startUID endUID startSequence endSequence =
     (case ForEachMessage (mbox box) startUID endUID 2 (getRange_visit cd box startSequence) ([], 0) of
        (Some err, bitmessages, i) \<Rightarrow> None
      | (None, bitmessages, i) \<Rightarrow> Some bitmessages)"

definition getSince ::
  "codec \<Rightarrow> mailbox \<Rightarrow> 64 word \<Rightarrow> 32 word \<Rightarrow> Bitmessage list option outcome option" where
  "getSince cd box startUID startSequence =
     then_run (index (uids box) (length (uids box) - 1)) (\<lambda>endUID.
       Some (Return (getRange cd box startUID endUID startSequence (messages box))))"

definition bitmessagesByUIDRange ::
  "codec \<Rightarrow> mailbox \<Rightarrow> 64 word \<Rightarrow> 64 word \<Rightarrow> Bitmessage list option outcome option" where
  "bitmessagesByUIDRange cd box start end =
     then_run (GetSequenceNumber (uids box) start) (\<lambda>startSequence.
     then_run (GetSequenceNumber (uids box) end) (\<lambda>endSequence.
       if endSequence < startSequence then Some (Return (Some []))
       else Some (Return (getRange cd box start end startSequence endSequence))))"

definition bitmessagesSinceUID ::
  "codec \<Rightarrow> mailbox \<Rightarrow> 64 word \<Rightarrow> Bitmessage list option outcome option" where
  "bitmessagesSinceUID cd box start =
     then_run (GetSequenceNumber (uids box) start) (\<lambda>startSequence.
       getSince cd box start startSequence)"

definition bitmessagesBySequenceRange ::
  "codec \<Rightarrow> mailbox \<Rightarrow> 32 word \<Rightarrow> 32 word \<Rightarrow> Bitmessage list option outcome option" where
  "bitmessagesBySequenceRange cd box start end =
     (if start < 1 \<or> messages box < start \<or> end < 1 \<or> messages box < end \<or> end < start
      then Some (Return None)
      else then_run (index (uids box) (unat (start - 1))) (\<lambda>startUID.
           then_run (index (uids box) (unat (end - 1))) (\<lambda>endUID.
             Some (Return (getRange cd box startUID endUID start end)))))"

definition bitmessagesSinceSequenceNumber ::
  "codec \<Rightarrow> mailbox \<Rightarrow> 32 word \<Rightarrow> Bitmessage list option outcome option" where
  "bitmessagesSinceSequenceNumber cd box start =
     (if start < 1 \<or> messages box < start then Some (Return None)
      else then_run (index (uids box) (unat (start - 1))) (\<lambda>startUID.
             getSince cd box startUID start))"

section \<open>Message sets\<close>

text \<open>
  \<open>types.SequenceSet\<close> of the imported IMAP server package is a list of ranges, each a
  pair of sequence numbers; a sequence number is a string that is empty (\<open>Nil()\<close>), or
  \<open>*\<close> (\<open>Last()\<close>), or holds a value.  \<open>Value()\<close> parses it as an unsigned 32-bit number
  and returns an error for the empty string, for \<open>*\<close> and for anything that does not
  parse.  A sequence number is modelled by these four cases.
\<close>

datatype SequenceNumber = SeqNil | SeqLast | SeqValue "32 word" | SeqMalformed

record SequenceRange =
  Min_bound :: SequenceNumber
  Max_bound :: SequenceNumber

type_synonym SequenceSet = "SequenceRange list"

definition Last_seq :: "SequenceNumber \<Rightarrow> bool" where
  "Last_seq s \<longleftrightarrow> s = SeqLast"

definition Nil_seq :: "SequenceNumber \<Rightarrow> bool" where
  "Nil_seq s \<longleftrightarrow> s = SeqNil"

definition Value_seq :: "SequenceNumber \<Rightarrow> error + 32 word" where
  "Value_seq s = (case s of SeqValue v \<Rightarrow> Inr v | _ \<Rightarrow> Inl ConvertFailed)"

text \<open>
  The slices of these methods hold pointers, some of them \<open>nil\<close>: an element is a
  \<open>Bitmessage option\<close>.  \<open>append(msgs, xs...)\<close> of a \<open>nil\<close> slice appends nothing.
\<close>

definition append_all :: "Bitmessage option list \<Rightarrow> Bitmessage list option \<Rightarrow> Bitmessage option list" where
  "append_all msgs xs = (case xs of None \<Rightarrow> msgs | Some ys \<Rightarrow> msgs @ map Some ys)"

text \<open>
  The loop of \<open>bitmessageSetByUID\<close> over the ranges that are left, with the messages
  gathered so far.  \<open>return msgs\<close> ends it; \<open>continue\<close> goes to the next range.
\<close>

fun setByUID_loop ::
  "codec \<Rightarrow> mailbox \<Rightarrow> SequenceRange list \<Rightarrow> Bitmessage option list
     \<Rightarrow> Bitmessage option list outcome option" where
  "setByUID_loop cd box [] msgs = Some (Return msgs)"
| "setByUID_loop cd box (msgRange # rest) msgs =
     (if Last_seq (Min_bound msgRange)
      then then_run (lastBitmessage cd box) (\<lambda>m. setByUID_loop cd box rest (msgs @ [m]))
      else case Value_seq (Min_bound msgRange) of
        Inl err \<Rightarrow> Some (Return msgs)
      | Inr start \<Rightarrow>
          if Nil_seq (Max_bound msgRange)
          then then_run (bmsgByUID cd box (ucast start))
                 (\<lambda>m. setByUID_loop cd box rest (msgs @ [m]))
          else if Last_seq (Max_bound msgRange)
          then then_run (bitmessagesSinceUID cd box (ucast start)) (\<lambda>since.
                 case since of
                   None \<Rightarrow> setByUID_loop cd box rest msgs
                 | Some xs \<Rightarrow> setByUID_loop cd box rest (append_all msgs since))
          else case Value_seq (Max_bound msgRange) of
            Inl err \<Rightarrow> Some (Return msgs)
          | Inr end \<Rightarrow>
              then_run (bitmessagesByUIDRange cd box (ucast start) (ucast end))
                (\<lambda>xs. setByUID_loop cd box rest (append_all msgs xs)))"

definition bitmessageSetByUID ::
  "codec \<Rightarrow> mailbox \<Rightarrow> SequenceSet \<Rightarrow> Bitmessage option list outcome option" where
  "bitmessageSetByUID cd box seqset =
     (if messages box = 0 then Some (Return [])
      else setByUID_loop cd box seqset [])"

text \<open>
  The loop of \<open>bitmessageSetBySequenceNumber\<close>.  \<open>start\<close> is the identifier at the
  sequence number \<open>startIndex\<close>, cut to 32 bits, and it is \<open>start\<close> that is handed on to
  the fetches by sequence number.
\<close>

fun setBySequenceNumber_loop ::
  "codec \<Rightarrow> mailbox \<Rightarrow> SequenceRange list \<Rightarrow> Bitmessage option list
     \<Rightarrow> Bitmessage option list outcome option" where
  "setBySequenceNumber_loop cd box [] msgs = Some (Return msgs)"
| "setBySequenceNumber_loop cd box (msgRange # rest) msgs =
     (if Last_seq (Min_bound msgRange)
      then then_run (lastBitmessage cd box) (\<lambda>m. setBySequenceNumber_loop cd box rest (msgs @ [m]))
      else case Value_seq (Min_bound msgRange) of
        Inl err \<Rightarrow> Some (Return msgs)
      | Inr startIndex \<Rightarrow>
          if startIndex < 1 \<or> messages box < startIndex then Some (Return msgs)
          else then_run (index (uids box) (unat (startIndex - 1))) (\<lambda>uid.
            let start = (ucast uid :: 32 word) in
            if Nil_seq (Max_bound msgRange)
            then then_run (bitmessageBySequenceNumber cd box start)
                   (\<lambda>m. setBySequenceNumber_loop cd box rest (msgs @ [m]))
            else if Last_seq (Max_bound msgRange)
            then then_run (bitmessagesSinceSequenceNumber cd box start)
                   (\<lambda>xs. setBySequenceNumber_loop cd box rest (append_all msgs xs))
            else case Value_seq (Max_bound msgRange) of
              Inl err \<Rightarrow> Some (Return msgs)
            | Inr end \<Rightarrow>
                then_run (bitmessagesBySequenceRange cd box start end)
                  (\<lambda>xs. setBySequenceNumber_loop cd box rest (append_all msgs xs))))"

definition bitmessageSetBySequenceNumber ::
  "codec \<Rightarrow> mailbox \<Rightarrow> SequenceSet \<Rightarrow> Bitmessage option list outcome option" where
  "bitmessageSetBySequenceNumber cd box seqset =
     (if messages box = 0 then Some (Return [])
      else setBySequenceNumber_loop cd box seqset [])"

subsection \<open>One range of a set\<close>

text \<open>
  What one pass of either loop does with its range, taken by itself: it ends the
  resolution (\<open>return msgs\<close>), or it adds messages to \<open>msgs\<close> and goes on to the next
  range.  The messages are those of the same fetches, in the same cases, as in the
  loops above; a fetch that gives a \<open>nil\<close> slice adds nothing.
\<close>

datatype range_step = Ends | Adds "Bitmessage option list"

definition rangeByUID :: "codec \<Rightarrow> mailbox \<Rightarrow> SequenceRange \<Rightarrow> range_step outcome option" where
  "rangeByUID cd box msgRange =
     (if Last_seq (Min_bound msgRange)
      then then_run (lastBitmessage cd box) (\<lambda>m. Some (Return (Adds [m])))
      else case Value_seq (Min_bound msgRange) of
        Inl err \<Rightarrow> Some (Return Ends)
      | Inr start \<Rightarrow>
          if Nil_seq (Max_bound msgRange)
          then then_run (bmsgByUID cd box (ucast start)) (\<lambda>m. Some (Return (Adds [m])))
          else if Last_seq (Max_bound msgRange)
          then then_run (bitmessagesSinceUID cd box (ucast start))
                 (\<lambda>since. Some (Return (Adds (append_all [] since))))
          else case Value_seq (Max_bound msgRange) of
            Inl err \<Rightarrow> Some (Return Ends)
          | Inr end \<Rightarrow>
              then_run (bitmessagesByUIDRange cd box (ucast start) (ucast end))
                (\<lambda>xs. Some (Return (Adds (append_all [] xs)))))"

definition rangeBySequenceNumber ::
  "codec \<Rightarrow> mailbox \<Rightarrow> SequenceRange \<Rightarrow> range_step outcome option" where
  "rangeBySequenceNumber cd box msgRange =
     (if Last_seq (Min_bound msgRange)
      then then_run (lastBitmessage cd box) (\<lambda>m. Some (Return (Adds [m])))
      else case Value_seq (Min_bound msgRange) of
        Inl err \<Rightarrow> Some (Return Ends)
      | Inr startIndex \<Rightarrow>
          if startIndex < 1 \<or> messages box < startIndex then Some (Return Ends)
          else then_run (index (uids box) (unat (startIndex - 1))) (\<lambda>uid.
            let start = (ucast uid :: 32 word) in
            if Nil_seq (Max_bound msgRange)
            then then_run (bitmessageBySequenceNumber cd box start)
                   (\<lambda>m. Some (Return (Adds [m])))
            else if Last_seq (Max_bound msgRange)
            then then_run (bitmessagesSinceSequenceNumber cd box start)
                   (\<lambda>xs. Some (Return (Adds (append_all [] xs))))
            else case Value_seq (Max_bound msgRange) of
              Inl err \<Rightarrow> Some (Return Ends)
            | Inr end \<Rightarrow>
                then_run (bitmessagesBySequenceRange cd box start end)
                  (\<lambda>xs. Some (Return (Adds (append_all [] xs))))))"

section \<open>Adding, saving and deleting\<close>

text \<open>
  \<open>saveBitmessage\<close>.  In the branch that replaces a message, \<open>err := ...DeleteMessage\<close>
  declares a second \<open>err\<close> for that block, and the error of \<open>InsertMessage\<close> is
  assigned to it; the test after the block reads the outer \<open>err\<close>, which is \<open>nil\<close>
  there.  So a failed \<open>InsertMessage\<close> is followed by the refresh like a successful
  one.  The message is passed by pointer, and the insertion of a new message writes
  the identifier of the store into it: \<open>saveBitmessage_uid\<close> below is the identifier
  the message holds when the call is over.
\<close>

definition saveBitmessage :: "codec \<Rightarrow> mailbox \<Rightarrow> Bitmessage \<Rightarrow> error option \<times> mailbox" where
  "saveBitmessage cd box msg =
     (case Serialize cd msg of
        None \<Rightarrow> (Some SerializeFailed, box)
      | Some encode \<Rightarrow>
          if UID (ImapData msg) = 0
          then (case InsertNewMessage (mbox box) encode (Encoding msg) of
                  Inl err \<Rightarrow> (Some err, box)
                | Inr (ident, f) \<Rightarrow> refresh cd (box\<lparr>mbox := f\<rparr>))
          else (case DeleteMessage (mbox box) (UID (ImapData msg)) of
                  Inl err \<Rightarrow> (Some err, box)
                | Inr f1 \<Rightarrow>
                   (case GetMessage f1 (UID (ImapData msg)) of
                      Inr found \<Rightarrow> (Some UnableToSave, box\<lparr>mbox := f1\<rparr>)
                    | Inl err \<Rightarrow>
                       (case InsertMessage f1 (UID (ImapData msg)) encode (Encoding msg) of
                          Inl err' \<Rightarrow> refresh cd (box\<lparr>mbox := f1\<rparr>)
                        | Inr f2 \<Rightarrow> refresh cd (box\<lparr>mbox := f2\<rparr>)))))"


text \<open>\<open>AddNew\<close>: the result of \<open>saveBitmessage\<close> is dropped and \<open>nil\<close> is returned.\<close>

definition AddNew :: "codec \<Rightarrow> mailbox \<Rightarrow> Bitmessage \<Rightarrow> Flags \<Rightarrow> Time \<Rightarrow> error option \<times> mailbox" where
  "AddNew cd box bmsg flags now =
     (let bmsg1 = bmsg\<lparr>ImapData := \<lparr>UID = 0, SequenceNumber = messages box + 1,
                                     Flags = flags, TimeReceived = now\<rparr>\<rparr>
      in (None, snd (saveBitmessage cd box bmsg1)))"

text \<open>The loop of \<open>DeleteBitmessageByUID\<close> cuts the first \<open>uid == id\<close> out of the index.\<close>

fun cut_uid :: "64 word \<Rightarrow> MessageSequence \<Rightarrow> MessageSequence" where
  "cut_uid ident [] = []"
| "cut_uid ident (uid # rest) = (if uid = ident then rest else uid # cut_uid ident rest)"

definition DeleteBitmessageByUID ::
  "codec \<Rightarrow> mailbox \<Rightarrow> 64 word \<Rightarrow> (error option \<times> mailbox) outcome option" where
  "DeleteBitmessageByUID cd box ident =
     then_run (bmsgByUID cd box ident) (\<lambda>found.
       case found of
         None \<Rightarrow> Some (Return (None, box))
       | Some bmsg \<Rightarrow>
          (case DeleteMessage (mbox box) ident of
             Inl err \<Rightarrow> Some (Return (Some err, box))
           | Inr f \<Rightarrow>
               let box1 = box\<lparr>mbox := f\<rparr>;
                   box2 = (if Flags (ImapData bmsg) AND FlagRecent = FlagRecent
                           then box1\<lparr>numRecent := numRecent box1 - 1\<rparr> else box1);
                   box3 = (if Flags (ImapData bmsg) AND FlagSeen \<noteq> FlagSeen
                           then box2\<lparr>numUnseen := numUnseen box2 - 1\<rparr> else box2)
               in Some (Return (None, box3\<lparr>uids := cut_uid ident (uids box3)\<rparr>))))"

text \<open>The mail handed to \<open>Save\<close>: the fields of \<open>IMAPEmail\<close> that \<open>Save\<close> reads.\<close>

record IMAPEmail =
  ImapUID :: "64 word"
  ImapSequenceNumber :: "32 word"
  ImapFlags :: Flags
  Date :: Time
  Content :: bytes

definition Save :: "codec \<Rightarrow> mailbox \<Rightarrow> IMAPEmail \<Rightarrow> (error option \<times> mailbox) outcome option" where
  "Save cd box email =
     (case (if drafts box then NewBitmessageDraftFromSMTP cd (Content email)
            else NewBitmessageFromSMTP cd (Content email)) of
        None \<Rightarrow> Some (Return (Some ConvertFailed, box))
      | Some converted \<Rightarrow>
          let msg = converted\<lparr>ImapData := \<lparr>UID = ImapUID email,
                                              SequenceNumber = ImapSequenceNumber email,
                                              Flags = ImapFlags email, TimeReceived = Date email\<rparr>\<rparr>
          in if UID (ImapData msg) \<noteq> 0
             then then_run (bmsgByUID cd box (UID (ImapData msg))) (\<lambda>found.
                    case found of
                      None \<Rightarrow> Some (Return (Some InvalidSequenceNumber, box))
                    | Some previous \<Rightarrow>
                        if UID (ImapData previous) \<noteq> UID (ImapData msg)
                          then Some (Return (Some InvalidUid, box))
                        else if TimeReceived (ImapData previous) \<noteq> TimeReceived (ImapData msg)
                          then Some (Return (Some CannotChangeDateReceived, box))
                        else Some (Return (saveBitmessage cd box (msg\<lparr>state := state previous\<rparr>))))
             else Some (Return (saveBitmessage cd box msg)))"



text \<open>\<open>NewMailbox\<close> and \<open>NewDrafts\<close>, given a store.\<close>

definition NewMailbox :: "codec \<Rightarrow> Folder \<Rightarrow> error + mailbox" where
  "NewMailbox cd f =
     (case refresh cd \<lparr>mbox = f, sub = None, drafts = False, uids = [],
                        numRecent = 0, numUnseen = 0, nextUID = 0\<rparr> of
        (Some err, m) \<Rightarrow> Inl err
      | (None, m) \<Rightarrow> Inr m)"

definition NewDrafts :: "codec \<Rightarrow> Folder \<Rightarrow> error + mailbox" where
  "NewDrafts cd f =
     (case refresh cd \<lparr>mbox = f, sub = None, drafts = True, uids = [],
                        numRecent = 0, numUnseen = 0, nextUID = 0\<rparr> of
        (Some err, m) \<Rightarrow> Inl err
      | (None, m) \<Rightarrow> Inr m)"

section \<open>Notions used to state the properties of the scans\<close>




section \<open>An example codec and an example mailbox\<close>

text \<open>
  A time for the closed statements: \<open>n\<close> seconds, no monotonic reading, UTC.  And a
  codec: the stored bytes are the flags followed by the acknowledgment token, and the
  empty byte string does not decode.
\<close>

definition example_time :: "nat \<Rightarrow> Time" where
  "example_time n = \<lparr>wall = 0, ext = word_of_nat n, loc = 0\<rparr>"

definition example_codec :: codec where
  "example_codec =
     \<lparr>DecodeBitmessage = (\<lambda>b. case b of
          [] \<Rightarrow> None
        | fl # ack \<Rightarrow> Some \<lparr>ImapData = \<lparr>UID = 0, SequenceNumber = 0, Flags = fl, TimeReceived = example_time 100\<rparr>,
                            Ack = ack, state = \<lparr>AckReceived = False\<rparr>, Encoding = 2, Object = []\<rparr>),
      Serialize = (\<lambda>m. Some (Flags (ImapData m) # Ack m)),
      NewBitmessageFromSMTP = (\<lambda>c. Some \<lparr>ImapData = \<lparr>UID = 0, SequenceNumber = 0, Flags = 0, TimeReceived = example_time 0\<rparr>,
                            Ack = c, state = \<lparr>AckReceived = False\<rparr>, Encoding = 2, Object = []\<rparr>),
      NewBitmessageDraftFromSMTP = (\<lambda>c. Some \<lparr>ImapData = \<lparr>UID = 0, SequenceNumber = 0, Flags = 0, TimeReceived = example_time 0\<rparr>,
                            Ack = c, state = \<lparr>AckReceived = False\<rparr>, Encoding = 2, Object = []\<rparr>)\<rparr>"

text \<open>
  Three messages under the identifiers 5, 10 and 15: the first recent and unseen, the
  second unseen, the third seen; and the mailbox that a refresh builds over them.
\<close>

definition example_folder :: Folder where
  "example_folder =
     \<lparr>entries = [(5, 2, [32, 1]), (10, 2, [0, 2]), (15, 2, [1, 3])], next_id = 16, failing = {}\<rparr>"

definition example_box :: mailbox where
  "example_box =
     \<lparr>mbox = example_folder, sub = None, drafts = False, uids = [5, 10, 15],
      numRecent = 1, numUnseen = 2, nextUID = 16\<rparr>"

text \<open>The same mailbox over a store whose first entry does not decode.\<close>

definition damaged_box :: mailbox where
  "damaged_box =
     example_box\<lparr>mbox := example_folder\<lparr>entries := [(5, 2, []), (10, 2, [0, 2]), (15, 2, [1, 3])]\<rparr>\<rparr>"

text \<open>The same mailbox over a store whose insertions fail.\<close>

definition failing_box :: mailbox where
  "failing_box = example_box\<lparr>mbox := example_folder\<lparr>failing := {OpInsertNew}\<rparr>\<rparr>"

definition example_message :: Bitmessage where
  "example_message =
     \<lparr>ImapData = \<lparr>UID = 0, SequenceNumber = 0, Flags = 0, TimeReceived = example_time 0\<rparr>,
      Ack = [4], state = \<lparr>AckReceived = False\<rparr>, Encoding = 2, Object = []\<rparr>"

text \<open>
  A mailbox whose identifiers are far apart: 1, \<open>2\<^sup>6\<^sup>0\<close> and \<open>2\<^sup>6\<^sup>0 + 1\<close>, the first two
  messages unseen, the third seen.
\<close>

definition wide_folder :: Folder where
  "wide_folder =
     \<lparr>entries = [(1, 2, [0, 1]), (2 ^ 60, 2, [0, 2]), (2 ^ 60 + 1, 2, [1, 3])],
      next_id = 2 ^ 60 + 2, failing = {}\<rparr>"

definition wide_box :: mailbox where
  "wide_box =
     \<lparr>mbox = wide_folder, sub = None, drafts = False, uids = [1, 2 ^ 60, 2 ^ 60 + 1],
      numRecent = 0, numUnseen = 2, nextUID = 2\<rparr>"

section \<open>Rounding: bounds by representable values\<close>

lemma rhe_le: "0 < q \<Longrightarrow> p \<le> x * q \<Longrightarrow> round_half_even p q \<le> x"
proof -
  assume q: "0 < q" and le: "p \<le> x * q"
  have d: "p div q \<le> x" using div_le_mono[OF le, of q] q by simp
  show ?thesis
  proof (cases "p div q < x")
    case True
    then show ?thesis by (auto simp: round_half_even_def Let_def)
  next
    case False
    with d have e: "p div q = x" by simp
    have "p = q * (p div q) + p mod q" by simp
    with e le have "p mod q = 0"
      by (metis add_diff_cancel_left' diff_is_0_eq' mult.commute)
    then show ?thesis using q e by (auto simp: round_half_even_def Let_def)
  qed
qed

lemma rhe_ge: "0 < q \<Longrightarrow> x * q \<le> p \<Longrightarrow> x \<le> round_half_even p q"
proof -
  assume q: "0 < q" and le: "x * q \<le> p"
  have "x \<le> p div q" using le q by (simp add: less_eq_div_iff_mult_less_eq)
  then show ?thesis by (auto simp: round_half_even_def Let_def)
qed


lemma repr_dvd:
  assumes r: "f64_repr x" and lo: "2 ^ (l - 1) \<le> x" and l: "53 < l"
  shows "2 ^ (l - 53) dvd x"
proof -
  from r obtain m j where x: "x = m * 2 ^ j" and m: "m < 2 ^ 53" by (auto simp: f64_repr_def)
  have "(2::nat) ^ (l - 1) < 2 ^ 53 * 2 ^ j"
  proof -
    have "m * 2 ^ j < 2 ^ 53 * (2::nat) ^ j" using m by simp
    with lo x show ?thesis by (metis le_less_trans)
  qed
  then have "(2::nat) ^ (l - 1) < 2 ^ (53 + j)" by (simp add: power_add)
  then have "l - 1 < 53 + j" by simp
  then have "l - 53 \<le> j" using l by simp
  then have "(2::nat) ^ (l - 53) dvd 2 ^ j" by (simp add: le_imp_power_dvd)
  then show ?thesis using x by simp
qed

lemma f64_round_le:
  assumes q: "0 < q" and r: "f64_repr x" and le: "p \<le> x * q"
  shows "f64_round p q \<le> x"
proof (cases "floorlog 2 (p div q) \<le> 53")
  case True
  then show ?thesis using rhe_le[OF q le] by (simp add: f64_round_def Let_def)
next
  case False
  define l where "l = floorlog 2 (p div q)"
  define u :: nat where "u = 2 ^ (l - 53)"
  from False have l: "53 < l" by (simp add: l_def)
  then have pos: "0 < p div q" by (cases "p div q = 0") (simp_all add: l_def floorlog_def)
  have b: "2 ^ (l - 1) \<le> p div q" "p div q < 2 ^ l"
    using floorlog_bounds[of "p div q" 2] pos by (simp_all add: l_def)
  have u: "0 < u" by (simp add: u_def)
  have qu: "0 < q * u" using q u by simp
  have res: "f64_round p q = u * round_half_even p (q * u)"
    using False by (simp add: f64_round_def l_def u_def Let_def)
  have plt: "p < 2 ^ l * q"
    using b(2) q by (simp add: div_less_iff_less_mult)
  have ul: "u * 2 ^ 53 = 2 ^ l"
  proof -
    have "u * 2 ^ 53 = 2 ^ (l - 53 + 53)" unfolding u_def by (rule power_add[symmetric])
    also have "l - 53 + 53 = l" using l by simp
    finally show ?thesis .
  qed
  show ?thesis
  proof (cases "2 ^ l \<le> x")
    case True
    have "2 ^ 53 * (q * u) = (u * 2 ^ 53) * q" by (simp only: mult_ac)
    then have "p \<le> 2 ^ 53 * (q * u)" using plt by (simp only: ul)
    then have "round_half_even p (q * u) \<le> 2 ^ 53" by (rule rhe_le[OF qu])
    then have "u * round_half_even p (q * u) \<le> u * 2 ^ 53" by simp
    with ul True res show ?thesis by simp
  next
    case False
    have "2 ^ (l - 1) * q \<le> p" using b(1) q by (simp add: less_eq_div_iff_mult_less_eq)
    also note le
    finally have "2 ^ (l - 1) \<le> x" using q by simp
    from repr_dvd[OF r this l] obtain y where y: "x = u * y" by (auto simp: u_def)
    have "p \<le> y * (q * u)" using le y by (simp add: mult.commute mult.left_commute)
    then have "round_half_even p (q * u) \<le> y" by (rule rhe_le[OF qu])
    then show ?thesis using res y by simp
  qed
qed

lemma f64_round_ge:
  assumes q: "0 < q" and r: "f64_repr x" and le: "x * q \<le> p"
  shows "x \<le> f64_round p q"
proof (cases "floorlog 2 (p div q) \<le> 53")
  case True
  then show ?thesis using rhe_ge[OF q le] by (simp add: f64_round_def Let_def)
next
  case False
  define l where "l = floorlog 2 (p div q)"
  define u :: nat where "u = 2 ^ (l - 53)"
  from False have l: "53 < l" by (simp add: l_def)
  then have pos: "0 < p div q" by (cases "p div q = 0") (simp_all add: l_def floorlog_def)
  have b: "2 ^ (l - 1) \<le> p div q" "p div q < 2 ^ l"
    using floorlog_bounds[of "p div q" 2] pos by (simp_all add: l_def)
  have u: "0 < u" by (simp add: u_def)
  have qu: "0 < q * u" using q u by simp
  have res: "f64_round p q = u * round_half_even p (q * u)"
    using False by (simp add: f64_round_def l_def u_def Let_def)
  have ul: "u * 2 ^ 52 = 2 ^ (l - 1)"
  proof -
    have "u * 2 ^ 52 = 2 ^ (l - 53 + 52)" unfolding u_def by (rule power_add[symmetric])
    also have "l - 53 + 52 = l - 1" using l by simp
    finally show ?thesis .
  qed
  have plo: "2 ^ (l - 1) * q \<le> p" using b(1) q by (simp add: less_eq_div_iff_mult_less_eq)
  show ?thesis
  proof (cases "x \<le> 2 ^ (l - 1)")
    case True
    have "2 ^ 52 * (q * u) = (u * 2 ^ 52) * q" by (simp only: mult_ac)
    then have "2 ^ 52 * (q * u) \<le> p" using plo by (simp only: ul)
    then have "2 ^ 52 \<le> round_half_even p (q * u)" by (rule rhe_ge[OF qu])
    then have "u * 2 ^ 52 \<le> u * round_half_even p (q * u)" by simp
    with ul True res show ?thesis by simp
  next
    case False
    then have "2 ^ (l - 1) \<le> x" by simp
    from repr_dvd[OF r this l] obtain y where y: "x = u * y" by (auto simp: u_def)
    have "y * (q * u) \<le> p" using le y by (simp add: mult.commute mult.left_commute)
    then have "y \<le> round_half_even p (q * u)" by (rule rhe_ge[OF qu])
    then show ?thesis using res y by simp
  qed
qed

lemma f64_round_exact: "0 < q \<Longrightarrow> f64_repr x \<Longrightarrow> f64_round (x * q) q = x"
  using f64_round_le[of q x "x * q"] f64_round_ge[of q x "x * q"] by simp

lemma f64_repr_mult: "m \<le> 2 ^ 53 \<Longrightarrow> f64_repr (m * 2 ^ j)"
proof (cases "m = 2 ^ 53")
  case True
  have "(2::nat) ^ 53 * 2 ^ j = 1 * 2 ^ (53 + j)" by (simp only: power_add mult_1)
  moreover have "(1::nat) < 2 ^ 53" by simp
  ultimately show ?thesis unfolding f64_repr_def True by blast
next
  case False
  assume "m \<le> 2 ^ 53"
  with False have "m < 2 ^ 53" by simp
  then show ?thesis unfolding f64_repr_def by blast
qed

lemma f64_repr_unit: "m \<le> 2 ^ 53 \<Longrightarrow> f64_repr (m * f64_unit)"
  unfolding f64_unit_def by (rule f64_repr_mult)

lemma f64_unit_pos: "0 < f64_unit"
  by (simp add: f64_unit_def)

lemma f64_of_nat_exact: "n \<le> 2 ^ 53 \<Longrightarrow> f64_of_nat n = n * f64_unit"
  using f64_round_exact[of 1 "n * f64_unit"] f64_repr_unit[of n]
  by (simp add: f64_of_nat_def)

lemma f64_of_nat_pos: "0 < n \<Longrightarrow> 0 < f64_of_nat n"
proof -
  assume "0 < n"
  then have "1 * f64_unit * 1 \<le> n * f64_unit" by simp
  moreover have "f64_repr (1 * f64_unit)" by (rule f64_repr_unit) simp
  ultimately have "1 * f64_unit \<le> f64_of_nat n"
    unfolding f64_of_nat_def by (intro f64_round_ge) simp_all
  then show ?thesis using f64_unit_pos by simp
qed

lemma probe_eq:
  assumes b: "0 < b" and n: "mi + n \<le> 2 ^ 53"
  shows "probe b b mi n = Some (mi + n)"
proof -
  let ?B = "f64_of_nat b"
  have B: "0 < ?B" using b by (rule f64_of_nat_pos)
  have "f64_repr (1 * f64_unit)" by (rule f64_repr_unit) simp
  then have "f64_round (f64_unit * ?B) ?B = f64_unit"
    using f64_round_exact[OF B, of f64_unit] by simp
  then have r: "f64_div ?B ?B = Some f64_unit"
    using B by (simp add: f64_div_def mult.commute)
  have n': "n \<le> 2 ^ 53" and mi': "mi \<le> 2 ^ 53" using n by simp_all
  have "f64_round (n * f64_unit * f64_unit) f64_unit = n * f64_unit"
    by (rule f64_round_exact[OF f64_unit_pos f64_repr_unit[OF n']])
  then have m: "f64_mul f64_unit (f64_of_nat n) = n * f64_unit"
    by (simp add: f64_mul_def f64_of_nat_exact[OF n'] mult.commute mult.left_commute)
  have "f64_round ((mi + n) * f64_unit * 1) 1 = (mi + n) * f64_unit"
    by (rule f64_round_exact[OF _ f64_repr_unit[OF n]]) simp
  then have a: "f64_add (f64_of_nat mi) (n * f64_unit) = (mi + n) * f64_unit"
    by (simp add: f64_add_def f64_of_nat_exact[OF mi'] add_mult_distrib)
  show ?thesis
    using f64_unit_pos by (simp add: probe_def r m a f64_floor_def)
qed

lemma probe_lt:
  assumes ab: "a < b" and bk: "b \<le> 2 ^ k" and sz: "(mi + n) * 2 ^ k \<le> 2 ^ 53" and n: "0 < n"
  shows "\<exists>c. probe a b mi n = Some c \<and> mi \<le> c \<and> c < mi + n"
proof -
  let ?U = f64_unit
  have k53: "k \<le> 53"
  proof -
    have "1 * (2::nat) ^ k \<le> (mi + n) * 2 ^ k" using n by (intro mult_le_mono1) simp
    then have "(2::nat) ^ k \<le> (mi + n) * 2 ^ k" by (simp only: mult_1)
    then have "(2::nat) ^ k \<le> 2 ^ 53" using sz by (rule order_trans)
    then show ?thesis by (simp only: power_increasing_iff[of 2] one_less_numeral_iff semiring_norm)
  qed
  define V :: nat where "V = 2 ^ (1074 - k)"
  have V: "0 < V" by (simp add: V_def)
  have UV: "?U = 2 ^ k * V"
  proof -
    have "(2::nat) ^ k * 2 ^ (1074 - k) = 2 ^ (k + (1074 - k))" by (rule power_add[symmetric])
    also have "k + (1074 - k) = 1074" using k53 by simp
    finally show ?thesis by (simp add: V_def f64_unit_def)
  qed
  have U: "0 < ?U" by (rule f64_unit_pos)
  have b53: "b \<le> 2 ^ 53" using bk k53
    by (meson le_trans one_le_numeral power_increasing)
  have a53: "a \<le> 2 ^ 53" using ab b53 by linarith
  have mn53: "mi + n \<le> 2 ^ 53"
  proof -
    have "(mi + n) * 1 \<le> (mi + n) * 2 ^ k" by (intro mult_le_mono2) simp
    then have "mi + n \<le> (mi + n) * 2 ^ k" by (simp only: mult_1_right)
    then show ?thesis using sz by (rule order_trans)
  qed
  have n53: "n \<le> 2 ^ 53" by (rule order_trans[OF le_add2 mn53])
  have mi53: "mi \<le> 2 ^ 53" by (rule order_trans[OF le_add1 mn53])
  have bpos: "0 < b" using ab by simp
  define R0 where "R0 = (2 ^ k - 1) * V"
  have R0r: "f64_repr R0" unfolding R0_def V_def
  proof (rule f64_repr_mult)
    have "(2::nat) ^ k \<le> 2 ^ 53" using k53 by (intro power_increasing) simp_all
    then show "(2::nat) ^ k - 1 \<le> 2 ^ 53" by linarith
  qed
  define ratio where "ratio = f64_round (a * ?U * ?U) (b * ?U)"
  have div: "f64_div (f64_of_nat a) (f64_of_nat b) = Some ratio"
    using bpos U by (simp add: f64_div_def f64_of_nat_exact[OF a53] f64_of_nat_exact[OF b53] ratio_def)
  have key: "a * 2 ^ k \<le> (2 ^ k - 1) * b"
  proof -
    have "Suc a \<le> b" using ab by simp
    then have "Suc a * 2 ^ k \<le> b * 2 ^ k" by (rule mult_le_mono1)
    then have "a * 2 ^ k + 2 ^ k \<le> b * 2 ^ k" by simp
    then have "a * 2 ^ k \<le> b * 2 ^ k - 2 ^ k" by simp
    also have "\<dots> \<le> b * 2 ^ k - b" using bk by simp
    also have "\<dots> = (2 ^ k - 1) * b" by (simp add: diff_mult_distrib2 mult.commute)
    finally show ?thesis .
  qed
  have "a * ?U * ?U \<le> R0 * (b * ?U)"
  proof -
    have "a * ?U * ?U = (a * 2 ^ k) * (V * ?U)" by (subst UV) (simp only: mult_ac)
    also have "\<dots> \<le> ((2 ^ k - 1) * b) * (V * ?U)" using key by (rule mult_le_mono1)
    also have "\<dots> = R0 * (b * ?U)" unfolding R0_def by (simp only: mult_ac)
    finally show ?thesis .
  qed
  then have ratio: "ratio \<le> R0"
    unfolding ratio_def using bpos U by (intro f64_round_le[OF _ R0r]) simp_all
  define P0 where "P0 = (n * (2 ^ k - 1)) * V"
  have nk: "n * (2 ^ k - 1) + n \<le> 2 ^ 53"
  proof -
    have "n * (2 ^ k - 1) + n = n * 2 ^ k" by (simp add: diff_mult_distrib2)
    also have "\<dots> \<le> (mi + n) * 2 ^ k" by simp
    finally show ?thesis using sz by (rule order_trans)
  qed
  have P0r: "f64_repr P0" unfolding P0_def V_def
    by (rule f64_repr_mult) (rule order_trans[OF le_add1 nk])
  define prod where "prod = f64_round (ratio * (n * ?U)) ?U"
  have mul: "f64_mul ratio (f64_of_nat n) = prod"
    by (simp add: f64_mul_def f64_of_nat_exact[OF n53] prod_def)
  have "ratio * (n * ?U) \<le> R0 * (n * ?U)" using ratio by (rule mult_le_mono1)
  also have "\<dots> = P0 * ?U" unfolding R0_def P0_def by (simp only: mult_ac)
  finally have prod: "prod \<le> P0"
    unfolding prod_def by (intro f64_round_le[OF U P0r])
  define S0 where "S0 = (mi * 2 ^ k + n * (2 ^ k - 1)) * V"
  have S0lt: "S0 + n * V = (mi + n) * ?U"
  proof -
    have "n * (2 ^ k - 1) + n = n * 2 ^ k" by (simp add: diff_mult_distrib2)
    then have "(mi * 2 ^ k + n * (2 ^ k - 1) + n) = (mi + n) * 2 ^ k"
      by (simp add: add_mult_distrib)
    then have "(mi * 2 ^ k + n * (2 ^ k - 1) + n) * V = (mi + n) * ?U"
      by (simp only: UV mult.assoc)
    then show ?thesis unfolding S0_def by (simp only: add_mult_distrib)
  qed
  have S0r: "f64_repr S0" unfolding S0_def V_def
  proof (rule f64_repr_mult)
    have "mi * 2 ^ k + n * (2 ^ k - 1) \<le> mi * 2 ^ k + n * 2 ^ k" by simp
    also have "\<dots> = (mi + n) * 2 ^ k" by (simp add: add_mult_distrib)
    finally show "mi * 2 ^ k + n * (2 ^ k - 1) \<le> 2 ^ 53" using sz by (rule order_trans)
  qed
  define sum where "sum = f64_round (mi * ?U + prod) 1"
  have add: "f64_add (f64_of_nat mi) prod = sum"
    by (simp add: f64_add_def f64_of_nat_exact[OF mi53] sum_def)
  have "mi * ?U + prod \<le> mi * ?U + P0" using prod by simp
  also have "\<dots> = S0" unfolding S0_def P0_def by (simp only: UV add_mult_distrib mult.assoc)
  finally have "mi * ?U + prod \<le> S0 * 1" by simp
  then have sum_hi: "sum \<le> S0" unfolding sum_def by (intro f64_round_le[OF _ S0r]) simp_all
  have "mi * ?U * 1 \<le> mi * ?U + prod" by simp
  then have sum_lo: "mi * ?U \<le> sum"
    unfolding sum_def by (intro f64_round_ge[OF _ f64_repr_unit[OF mi53]]) simp_all
  have "0 < n * V" using n V by simp
  then have "S0 < S0 + n * V" by simp
  then have "S0 < (mi + n) * ?U" by (simp only: S0lt)
  with sum_hi have "sum < (mi + n) * ?U" by simp
  then have hi: "f64_floor sum < mi + n"
    using U by (simp add: f64_floor_def div_less_iff_less_mult)
  have lo: "mi \<le> f64_floor sum"
    using sum_lo U by (simp add: f64_floor_def less_eq_div_iff_mult_less_eq)
  show ?thesis using lo hi by (simp add: probe_def div mul add)
qed

section \<open>The search on a strictly ascending sequence\<close>

lemma filter_split_at:
  assumes "i \<le> length xs" and "\<forall>j<i. P (xs ! j)" and "\<forall>j. i \<le> j \<and> j < length xs \<longrightarrow> \<not> P (xs ! j)"
  shows "length (filter P xs) = i"
proof -
  have xs: "xs = take i xs @ drop i xs" by simp
  have t: "filter P (take i xs) = take i xs"
    using assms(1,2) by (auto simp: filter_id_conv in_set_conv_nth)
  have d: "filter P (drop i xs) = []"
    using assms(1,3) by (auto simp: filter_empty_conv in_set_conv_nth)
  have "filter P xs = filter P (take i xs) @ filter P (drop i xs)"
    by (subst xs) (simp only: filter_append)
  then show ?thesis using assms(1) by (simp add: t d)
qed

lemma position_hit:
  assumes s: "sorted_wrt (<) us" and c: "c < length us" and e: "us ! c = uid"
  shows "position us uid = c"
  unfolding position_def
proof (rule filter_split_at)
  show "c \<le> length us" using c by simp
  show "\<forall>j<c. us ! j < uid" using s c e sorted_wrt_nth_less by blast
  show "\<forall>j. c \<le> j \<and> j < length us \<longrightarrow> \<not> us ! j < uid"
  proof (intro allI impI)
    fix j assume j: "c \<le> j \<and> j < length us"
    then have "us ! c \<le> us ! j"
      using s sorted_wrt_nth_less[of "(<)" us c j] by (cases "c = j") auto
    then show "\<not> us ! j < uid" using e by simp
  qed
qed

lemma position_between:
  assumes s: "sorted_wrt (<) us" and c: "Suc c < length us"
    and lo: "us ! c < uid" and hi: "uid \<le> us ! Suc c"
  shows "position us uid = Suc c"
  unfolding position_def
proof (rule filter_split_at)
  show "Suc c \<le> length us" using c by simp
  show "\<forall>j<Suc c. us ! j < uid"
  proof (intro allI impI)
    fix j assume j: "j < Suc c"
    then have "us ! j \<le> us ! c"
      using s c sorted_wrt_nth_less[of "(<)" us j c] by (cases "j = c") auto
    then show "us ! j < uid" using lo by simp
  qed
  show "\<forall>j. Suc c \<le> j \<and> j < length us \<longrightarrow> \<not> us ! j < uid"
  proof (intro allI impI)
    fix j assume j: "Suc c \<le> j \<and> j < length us"
    then have "us ! Suc c \<le> us ! j"
      using s sorted_wrt_nth_less[of "(<)" us "Suc c" j] by (cases "Suc c = j") auto
    then show "\<not> us ! j < uid" using hi by simp
  qed
qed

lemma position_first:
  assumes s: "sorted_wrt (<) us" and n: "us \<noteq> []" and le: "uid \<le> us ! 0"
  shows "position us uid = 0"
  unfolding position_def
proof (rule filter_split_at)
  show "\<forall>j. 0 \<le> j \<and> j < length us \<longrightarrow> \<not> us ! j < uid"
  proof (intro allI impI)
    fix j assume j: "0 \<le> j \<and> j < length us"
    then have "us ! 0 \<le> us ! j"
      using s sorted_wrt_nth_less[of "(<)" us 0 j] by (cases "0 = j") auto
    then show "\<not> us ! j < uid" using le by simp
  qed
qed simp_all

lemma position_beyond:
  assumes s: "sorted_wrt (<) us" and n: "us \<noteq> []" and lt: "us ! (length us - 1) < uid"
  shows "position us uid = length us"
  unfolding position_def
proof (rule filter_split_at)
  show "\<forall>j<length us. us ! j < uid"
  proof (intro allI impI)
    fix j assume j: "j < length us"
    then have "us ! j \<le> us ! (length us - 1)"
    proof (cases "j = length us - 1")
      case False
      with j have "j < length us - 1" by simp
      then have "us ! j < us ! (length us - 1)"
        using s j sorted_wrt_nth_less[of "(<)" us j "length us - 1"] by simp
      then show ?thesis by simp
    qed simp
    then show "us ! j < uid" using lt by simp
  qed
qed auto

text \<open>A strictly ascending sequence of words grows by at least one per index.\<close>

lemma ascending_gap:
  assumes s: "sorted_wrt (<) (us :: 64 word list)" and j: "j < length us" and ij: "i \<le> j"
  shows "unat (us ! i) + (j - i) \<le> unat (us ! j)"
  using j ij
proof (induction j)
  case 0
  then show ?case by simp
next
  case (Suc j)
  show ?case
  proof (cases "i = Suc j")
    case True
    then show ?thesis by simp
  next
    case False
    with Suc.prems have ij: "i \<le> j" by simp
    have "us ! j < us ! Suc j"
      using s Suc.prems sorted_wrt_nth_less[of "(<)" us j "Suc j"] by simp
    then have "unat (us ! j) < unat (us ! Suc j)" by (simp add: word_less_nat_alt)
    moreover have "unat (us ! i) + (j - i) \<le> unat (us ! j)"
      using Suc.IH Suc.prems ij by simp
    ultimately show ?thesis using ij by simp
  qed
qed

lemma ascending_mono:
  assumes s: "sorted_wrt (<) (us :: 64 word list)" and j: "j < length us" and ij: "i \<le> j"
  shows "us ! i \<le> us ! j"
  using ascending_gap[OF s j ij] by (simp add: word_le_nat_alt)

lemma checkIndex_of_probe:
  "checkIndex_of uid mi ma minU maxU =
     (case probe (unat (uid - minU)) (unat (maxU - minU)) (unat mi) (unat (ma - mi)) of
        None \<Rightarrow> None
      | Some fl \<Rightarrow> if fl < 2 ^ 32 then Some (word_of_nat fl) else None)"
  by (simp add: checkIndex_of_def probe_def Let_def split: option.splits)

lemma span_bound:
  assumes s: "sorted_wrt (<) (us :: 64 word list)" and j: "j < length us" and ij: "i \<le> j"
  shows "unat (us ! j) - unat (us ! i) \<le> unat (last us - hd us)"
proof -
  have ne: "us \<noteq> []" using j by auto
  have l: "last us = us ! (length us - 1)" using ne by (rule last_conv_nth)
  have h: "hd us = us ! 0" using ne by (rule hd_conv_nth)
  have 1: "us ! 0 \<le> us ! i" using ascending_mono[OF s, of i 0] j ij by simp
  have 2: "us ! j \<le> us ! (length us - 1)"
    using ascending_mono[OF s, of "length us - 1" j] j by simp
  have 3: "us ! 0 \<le> us ! (length us - 1)"
    using ascending_mono[OF s, of "length us - 1" 0] j by simp
  have "unat (last us - hd us) = unat (us ! (length us - 1)) - unat (us ! 0)"
    unfolding l h using 3 by (rule unat_sub)
  then show ?thesis using 1 2 by (simp add: word_le_nat_alt)
qed

lemma checkIndex_bounds:
  assumes s: "sorted_wrt (<) us"
    and k1: "unat (last us - hd us) \<le> 2 ^ k" and k2: "length us * 2 ^ k \<le> 2 ^ 53"
    and inv: "search_inv us uid st"
  shows "\<exists>c. checkIndex_of uid (minIndex st) (maxIndex st) (minUID st) (maxUID st) = Some c \<and>
             unat (minIndex st) \<le> unat c \<and> unat c \<le> unat (maxIndex st) \<and>
             (uid < maxUID st \<longrightarrow> unat c < unat (maxIndex st)) \<and>
             (uid = maxUID st \<longrightarrow> c = maxIndex st)"
proof -
  define mi where "mi = unat (minIndex st)"
  define ma where "ma = unat (maxIndex st)"
  from inv have lt: "mi < ma" and len: "ma < length us"
    and minU: "minUID st = us ! mi" and maxU: "maxUID st = us ! ma"
    and lo: "minUID st \<le> uid" and hi: "uid \<le> maxUID st"
    unfolding search_inv_def mi_def ma_def by blast+
  have ile: "minIndex st \<le> maxIndex st" using lt by (simp add: word_le_nat_alt mi_def ma_def)
  have n: "unat (maxIndex st - minIndex st) = ma - mi"
    unfolding mi_def ma_def using ile by (rule unat_sub)
  have a: "unat (uid - minUID st) = unat uid - unat (minUID st)" using lo by (rule unat_sub)
  have mm: "minUID st \<le> maxUID st" using lo hi by simp
  have b: "unat (maxUID st - minUID st) = unat (maxUID st) - unat (minUID st)"
    using mm by (rule unat_sub)
  have strict: "minUID st < maxUID st"
    unfolding minU maxU using s lt len sorted_wrt_nth_less by blast
  have bk: "unat (maxUID st) - unat (minUID st) \<le> 2 ^ k"
    unfolding minU maxU using span_bound[OF s len, of mi] lt k1 by simp
  have sz: "(mi + (ma - mi)) * 2 ^ k \<le> 2 ^ 53"
  proof -
    have "(mi + (ma - mi)) * 2 ^ k = ma * 2 ^ k" using lt by simp
    also have "\<dots> \<le> length us * 2 ^ k" using len by simp
    finally show ?thesis using k2 by (rule order_trans)
  qed
  have ma32: "ma < 2 ^ 32" unfolding ma_def using unsigned_less[of "maxIndex st"] by simp
  show ?thesis
  proof (cases "uid = maxUID st")
    case True
    have bpos: "0 < unat (maxUID st) - unat (minUID st)"
      using strict by (simp add: word_less_nat_alt)
    have le53: "mi + (ma - mi) \<le> 2 ^ 53"
    proof -
      have "(mi + (ma - mi)) * 1 \<le> (mi + (ma - mi)) * 2 ^ k" by (intro mult_le_mono2) simp
      then have "mi + (ma - mi) \<le> (mi + (ma - mi)) * 2 ^ k" by (simp only: mult_1_right)
      then show ?thesis using sz by (rule order_trans)
    qed
    have "probe (unat (maxUID st) - unat (minUID st)) (unat (maxUID st) - unat (minUID st))
            mi (ma - mi) = Some (mi + (ma - mi))"
      using bpos le53 by (rule probe_eq)
    then have p: "probe (unat (maxUID st - minUID st)) (unat (maxUID st - minUID st))
                    (unat (minIndex st)) (unat (maxIndex st - minIndex st)) = Some ma"
      using lt by (simp add: b n mi_def)
    have w: "word_of_nat ma = maxIndex st" by (simp add: ma_def)
    have "checkIndex_of (maxUID st) (minIndex st) (maxIndex st) (minUID st) (maxUID st)
            = Some (maxIndex st)"
      using ma32 w by (simp add: checkIndex_of_probe p)
    then show ?thesis
      using True lt by (simp add: mi_def ma_def)
  next
    case False
    with hi have ult: "uid < maxUID st" by simp
    then have ab: "unat uid - unat (minUID st) < unat (maxUID st) - unat (minUID st)"
      using lo by (simp add: word_less_nat_alt word_le_nat_alt)
    have npos: "0 < ma - mi" using lt by simp
    from probe_lt[OF ab bk sz npos]
    obtain c where p: "probe (unat uid - unat (minUID st)) (unat (maxUID st) - unat (minUID st))
                         mi (ma - mi) = Some c" and c: "mi \<le> c" "c < ma"
      using lt by auto
    have c32: "c < 2 ^ 32" using c ma32 by simp
    have uc: "unat (word_of_nat c :: 32 word) = c"
      by (rule le_unat_uoi[of c "maxIndex st"]) (use c in \<open>simp add: ma_def\<close>)
    have "checkIndex_of uid (minIndex st) (maxIndex st) (minUID st) (maxUID st)
            = Some (word_of_nat c)"
      using p c32 by (simp add: checkIndex_of_probe a b n mi_def)
    then show ?thesis using False ult uc c by (simp add: mi_def ma_def)
  qed
qed

lemma search_body_step:
  assumes s: "sorted_wrt (<) us"
    and k1: "unat (last us - hd us) \<le> 2 ^ k" and k2: "length us * 2 ^ k \<le> 2 ^ 53"
    and inv: "search_inv us uid st"
  shows "search_body us uid st = Done (Return (word_of_nat (position us uid + 1))) \<or>
         (\<exists>st'. search_body us uid st = Continue st' \<and> search_inv us uid st' \<and>
                unat (maxIndex st') - unat (minIndex st') < unat (maxIndex st) - unat (minIndex st) \<and>
                unat (minIndex st) \<le> unat (minIndex st') \<and>
                unat (maxIndex st') \<le> unat (maxIndex st))"
proof -
  from checkIndex_bounds[OF s k1 k2 inv] obtain c where
    ci: "checkIndex_of uid (minIndex st) (maxIndex st) (minUID st) (maxUID st) = Some c"
    and clo: "unat (minIndex st) \<le> unat c" and chi: "unat c \<le> unat (maxIndex st)"
    and clt: "uid < maxUID st \<longrightarrow> unat c < unat (maxIndex st)"
    and ceq: "uid = maxUID st \<longrightarrow> c = maxIndex st" by blast
  from inv have lt: "unat (minIndex st) < unat (maxIndex st)"
    and len: "unat (maxIndex st) < length us"
    and minU: "minUID st = us ! unat (minIndex st)"
    and maxU: "maxUID st = us ! unat (maxIndex st)"
    and lo: "minUID st \<le> uid" and hi: "uid \<le> maxUID st"
    unfolding search_inv_def by blast+
  have clen: "unat c < length us" using chi len by simp
  have cw: "c + 1 = word_of_nat (unat c + 1)" by simp
  consider (hit) "us ! unat c = uid" | (above) "uid < us ! unat c" | (below) "us ! unat c < uid"
    by (metis not_less_iff_gr_or_eq)
  then show ?thesis
  proof cases
    case hit
    have "position us uid = unat c" using s clen hit by (rule position_hit)
    then have "search_body us uid st = Done (Return (word_of_nat (position us uid + 1)))"
      using clen hit by (simp add: search_body_def ci)
    then show ?thesis ..
  next
    case above
    have ne: "uid \<noteq> maxUID st" using above ceq maxU by auto
    with hi clt have c1: "unat c < unat (maxIndex st)" by simp
    have "unat (minIndex st) \<noteq> unat c" using above lo minU by auto
    with clo have c0: "unat (minIndex st) < unat c" by simp
    let ?st' = "st\<lparr>maxUID := us ! unat c, maxIndex := c\<rparr>"
    have b: "search_body us uid st = Continue ?st'"
      using clen above by (simp add: search_body_def ci)
    have i: "search_inv us uid ?st'"
      using c0 clen minU lo above by (simp add: search_inv_def)
    show ?thesis using b i c0 c1 by auto
  next
    case below
    have ne: "uid \<noteq> maxUID st" using below ceq maxU by auto
    with hi have ult: "uid < maxUID st" by simp
    with clt have c1: "unat c < unat (maxIndex st)" by simp
    have uc: "unat (c + 1) = Suc (unat c)"
      unfolding cw using le_unat_uoi[of "Suc (unat c)" "maxIndex st"] c1 by simp
    have slen: "Suc (unat c) < length us" using c1 len by simp
    have nhit: "us ! unat c \<noteq> uid" "\<not> uid < us ! unat c" using below by auto
    show ?thesis
    proof (cases "uid < us ! Suc (unat c)")
      case True
      have "position us uid = Suc (unat c)"
        using s slen below True by (intro position_between) simp_all
      then have "search_body us uid st = Done (Return (word_of_nat (position us uid + 1)))"
        using clen nhit slen True by (simp add: search_body_def ci uc)
      then show ?thesis ..
    next
      case False
      then have le: "us ! Suc (unat c) \<le> uid" by simp
      have "Suc (unat c) \<noteq> unat (maxIndex st)" using le ult maxU by auto
      with c1 have c2: "Suc (unat c) < unat (maxIndex st)" by simp
      let ?st' = "st\<lparr>minIndex := c + 1, minUID := us ! unat (c + 1)\<rparr>"
      have b: "search_body us uid st = Continue ?st'"
        using clen nhit slen False by (simp add: search_body_def ci uc)
      have i: "search_inv us uid ?st'"
        using c2 len maxU hi le by (simp add: search_inv_def uc)
      show ?thesis using b i c2 clo by (auto simp: uc)
    qed
  qed
qed

lemma search_loop_returns:
  assumes s: "sorted_wrt (<) us"
    and k1: "unat (last us - hd us) \<le> 2 ^ k" and k2: "length us * 2 ^ k \<le> 2 ^ 53"
  shows "search_inv us uid st \<Longrightarrow>
         search_loop us uid st = Some (Return (word_of_nat (position us uid + 1)))"
proof (induction "unat (maxIndex st) - unat (minIndex st)" arbitrary: st rule: less_induct)
  case less
  from search_body_step[OF s k1 k2 less.prems]
  show ?case
  proof
    assume "search_body us uid st = Done (Return (word_of_nat (position us uid + 1)))"
    then show ?thesis by (subst search_loop.simps) simp
  next
    assume "\<exists>st'. search_body us uid st = Continue st' \<and> search_inv us uid st' \<and>
                unat (maxIndex st') - unat (minIndex st') < unat (maxIndex st) - unat (minIndex st) \<and>
                unat (minIndex st) \<le> unat (minIndex st') \<and>
                unat (maxIndex st') \<le> unat (maxIndex st)"
    then obtain st' where b: "search_body us uid st = Continue st'"
      and i: "search_inv us uid st'"
      and w: "unat (maxIndex st') - unat (minIndex st') < unat (maxIndex st) - unat (minIndex st)"
      by blast
    have "search_loop us uid st = search_loop us uid st'"
      by (subst search_loop.simps) (simp add: b)
    then show ?thesis using less.hyps[OF w i] by simp
  qed
qed

lemma interpolation_exact_k:
  assumes s: "sorted_wrt (<) (us :: 64 word list)" and e: "interpolation_exact us"
    and l: "2 \<le> length us"
  shows "\<exists>k. unat (last us - hd us) \<le> 2 ^ k \<and> length us * 2 ^ k \<le> 2 ^ 53"
proof -
  define sp where "sp = unat (last us - hd us)"
  define k where "k = ceillog2 sp"
  have ne: "us \<noteq> []" using l by auto
  have "unat (us ! (length us - 1)) - unat (us ! 0) \<le> sp"
    unfolding sp_def using l by (intro span_bound[OF s]) simp_all
  moreover have "unat (us ! 0) + (length us - 1 - 0) \<le> unat (us ! (length us - 1))"
    using l by (intro ascending_gap[OF s]) simp_all
  ultimately have pos: "0 < sp" using l by simp
  have 1: "sp \<le> 2 ^ k" unfolding k_def by (rule le_two_power_ceillog2)
  have "2 ^ k \<le> 2 * sp" unfolding k_def using two_power_ceillog2_gt[OF pos] by simp
  then have "length us * 2 ^ k \<le> length us * (2 * sp)" by (rule mult_le_mono2)
  also have "\<dots> = 2 * (sp * length us)" by (simp only: mult_ac)
  also have "\<dots> \<le> 2 * 2 ^ 52" using e unfolding interpolation_exact_def sp_def
    by (intro mult_le_mono2)
  also have "\<dots> = (2::nat) ^ 53" by simp
  finally show ?thesis using 1 unfolding sp_def by blast
qed

lemma interpolation_exact_length:
  assumes s: "sorted_wrt (<) (us :: 64 word list)" and e: "interpolation_exact us"
  shows "length us < 2 ^ 32"
proof (rule ccontr)
  assume "\<not> length us < 2 ^ 32"
  then have big: "2 ^ 32 \<le> length us" by simp
  then have l: "2 \<le> length us" by simp
  have "unat (us ! (length us - 1)) - unat (us ! 0) \<le> unat (last us - hd us)"
    using l by (intro span_bound[OF s]) simp_all
  moreover have "unat (us ! 0) + (length us - 1 - 0) \<le> unat (us ! (length us - 1))"
    using l by (intro ascending_gap[OF s]) simp_all
  ultimately have "length us - 1 \<le> unat (last us - hd us)" by simp
  moreover have "2 ^ 31 \<le> length us - 1" using big by simp
  ultimately have "(2::nat) ^ 31 \<le> unat (last us - hd us)" by (rule order_trans[rotated])
  then have "(2::nat) ^ 31 * 2 ^ 32 \<le> unat (last us - hd us) * length us"
    using big by (rule mult_le_mono)
  also have "\<dots> \<le> 2 ^ 52" using e by (simp only: interpolation_exact_def)
  finally show False by simp
qed

lemma search_init_inv:
  assumes s: "sorted_wrt (<) (us :: 64 word list)" and e: "interpolation_exact us"
    and l: "2 \<le> length us" and lo: "us ! 0 \<le> uid" and hi: "uid \<le> us ! (length us - 1)"
  shows "search_inv us uid (search_init us)"
proof -
  have "length us - 1 < 2 ^ 32" using interpolation_exact_length[OF s e] by simp
  then have u: "unat (word_of_nat (length us - 1) :: 32 word) = length us - 1"
    by (simp add: unat_of_nat)
  have "unat (minIndex (search_init us)) = 0"
    and "unat (maxIndex (search_init us)) = length us - 1"
    and "minUID (search_init us) = us ! 0"
    and "maxUID (search_init us) = us ! (length us - 1)"
    by (simp_all only: search_init_def search_state.select_convs u unat_0)
  then show ?thesis using l lo hi unfolding search_inv_def by simp
qed

lemma GetSequenceNumber_position:
  assumes s: "sorted_wrt (<) us" and e: "interpolation_exact us"
  shows "GetSequenceNumber us uid = Some (Return (word_of_nat (position us uid + 1)))"
proof -
  have len: "us = [] \<or> length us = 1 \<or> 2 \<le> length us"
    by (cases us) (auto simp: Suc_le_eq)
  then consider (empty) "us = []" | (first) "us \<noteq> []" "uid < us ! 0"
    | (beyond) "us \<noteq> []" "\<not> uid < us ! 0" "us ! (length us - 1) < uid"
    | (single) "\<not> uid < us ! 0" "\<not> us ! (length us - 1) < uid" "length us = 1"
    | (loop) "\<not> uid < us ! 0" "\<not> us ! (length us - 1) < uid" "2 \<le> length us"
    by blast
  then show ?thesis
  proof cases
    case empty
    then show ?thesis by (simp add: GetSequenceNumber_def position_def)
  next
    case first
    then have "position us uid = 0" using s by (intro position_first) simp_all
    then show ?thesis using first by (simp add: GetSequenceNumber_def)
  next
    case beyond
    then have "position us uid = length us" using s by (intro position_beyond)
    then show ?thesis using beyond by (simp add: GetSequenceNumber_def)
  next
    case single
    then have "position us uid = 0" using s by (intro position_first) auto
    then show ?thesis using single by (simp add: GetSequenceNumber_def)
  next
    case loop
    from interpolation_exact_k[OF s e loop(3)] obtain k where
      k1: "unat (last us - hd us) \<le> 2 ^ k" and k2: "length us * 2 ^ k \<le> 2 ^ 53" by blast
    have "search_inv us uid (search_init us)"
      using loop by (intro search_init_inv[OF s e]) simp_all
    from search_loop_returns[OF s k1 k2 this] show ?thesis
      using loop by (auto simp add: GetSequenceNumber_def)
  qed
qed

section \<open>A sequence on which the search never returns\<close>

lemma round_half_even_scale:
  "0 < c \<Longrightarrow> round_half_even (p * c) (q * c) = round_half_even p q"
proof -
  assume c: "0 < c"
  have d: "(p * c) div (q * c) = p div q" using c by simp
  have m: "(p * c) mod (q * c) = (p mod q) * c" using c by (simp add: mod_mult_mult2)
  have 1: "2 * ((p mod q) * c) < q * c \<longleftrightarrow> 2 * (p mod q) < q"
    using c by (simp add: mult.assoc[symmetric])
  have 2: "q * c < 2 * ((p mod q) * c) \<longleftrightarrow> q < 2 * (p mod q)"
    using c by (simp add: mult.assoc[symmetric])
  show ?thesis unfolding round_half_even_def d m Let_def 1 2 ..
qed

lemma f64_round_scale: "0 < c \<Longrightarrow> f64_round (p * c) (q * c) = f64_round p q"
proof -
  assume c: "0 < c"
  have d: "(p * c) div (q * c) = p div q" using c by simp
  have s: "q * c * 2 ^ j = (q * 2 ^ j) * c" for j by (simp only: mult_ac)
  show ?thesis
    unfolding f64_round_def d Let_def s round_half_even_scale[OF c] ..
qed

lemma floorlog_2_eqI: "0 < l \<Longrightarrow> 2 ^ (l - 1) \<le> x \<Longrightarrow> x < 2 ^ l \<Longrightarrow> floorlog 2 x = l"
  by (intro antisym floorlog_leI floorlog_geI) simp_all

lemma f64_of_nat_scale: "f64_of_nat n = f64_round n 1 * f64_unit"
proof (cases "n \<le> 2 ^ 53")
  case True
  have "f64_repr (n * 2 ^ 0)" using True by (rule f64_repr_mult)
  then have "f64_round (n * 1) 1 = n" by (intro f64_round_exact) simp_all
  then show ?thesis using f64_of_nat_exact[OF True] by simp
next
  case False
  define l where "l = floorlog 2 n"
  have n: "0 < n" using False by (cases "n = 0") simp_all
  have l: "53 < l"
  proof -
    have "2 ^ 53 \<le> n" using False by simp
    then have "Suc 53 \<le> floorlog 2 n" by (intro floorlog_ge_SucI) simp_all
    then show ?thesis by (simp add: l_def)
  qed
  have fl: "floorlog 2 (n * f64_unit) = l + 1074"
    unfolding f64_unit_def l_def using n by (rule floorlog_power) simp
  have e: "(2::nat) ^ (l + 1074 - 53) = 2 ^ (l - 53) * f64_unit"
  proof -
    have "l + 1074 - 53 = (l - 53) + 1074" using l by simp
    then show ?thesis unfolding f64_unit_def by (simp only: power_add)
  qed
  have nle: "\<not> l + 1074 \<le> 53" by simp
  have "f64_of_nat n = 2 ^ (l - 53) * f64_unit * round_half_even (n * f64_unit) (2 ^ (l - 53) * f64_unit)"
    unfolding f64_of_nat_def f64_round_def Let_def div_by_1 fl mult_1
    using nle by (simp only: if_False e)
  also have "\<dots> = 2 ^ (l - 53) * round_half_even n (2 ^ (l - 53)) * f64_unit"
    by (simp only: round_half_even_scale[OF f64_unit_pos]) (simp only: mult_ac)
  also have "\<dots> = f64_round n 1 * f64_unit"
    using l by (simp add: f64_round_def l_def Let_def)
  finally show ?thesis .
qed

lemma f64_round_2_60: "f64_round (2 ^ 60 - 1) 1 = 2 ^ 60"
proof -
  have "floorlog 2 (2 ^ 60 - 1) = 60" by (rule floorlog_2_eqI) simp_all
  then show ?thesis by (simp add: f64_round_def round_half_even_def Let_def)
qed

lemma f64_of_nat_2_60: "f64_of_nat (2 ^ 60 - 1) = f64_of_nat (2 ^ 60)"
proof -
  have "f64_repr (1 * 2 ^ 60)" by (rule f64_repr_mult) simp
  then have "f64_round (2 ^ 60 * 1) 1 = 2 ^ 60" by (intro f64_round_exact) simp_all
  then show ?thesis by (simp only: f64_of_nat_scale f64_round_2_60 mult_1_right)
qed

lemma probe_2_60: "probe (2 ^ 60 - 1) (2 ^ 60) 0 1 = Some 1"
proof -
  have "probe (2 ^ 60) (2 ^ 60) 0 1 = Some (0 + 1)" by (rule probe_eq) simp_all
  then show ?thesis using f64_of_nat_2_60 by (simp add: probe_def)
qed

lemma stuck_body:
  "search_body [0, 2 ^ 60] (2 ^ 60 - 1) (search_init [0, 2 ^ 60]) = Continue (search_init [0, 2 ^ 60])"
proof -
  have "checkIndex_of (2 ^ 60 - 1) 0 1 0 (2 ^ 60) = Some 1"
    using probe_2_60 by (simp add: checkIndex_of_probe)
  then show ?thesis by (simp add: search_body_def search_init_def)
qed

lemma search_loop_stuck:
  assumes "search_body us uid st = Continue st"
  shows "search_loop us uid st = None"
proof (rule ccontr)
  assume "search_loop us uid st \<noteq> None"
  then obtain y where y: "search_loop us uid st = Some y" by auto
  have "search_body us uid st \<noteq> Continue st"
  proof (rule search_loop.raw_induct[where P = "\<lambda>us uid st y. search_body us uid st \<noteq> Continue st", OF _ y])
    fix f us uid st and r :: "32 word outcome"
    assume ih: "\<And>us uid st y. f us uid st = Some y \<Longrightarrow> search_body us uid st \<noteq> Continue st"
      and st: "(case search_body us uid st of Done r \<Rightarrow> Some r | Continue st' \<Rightarrow> f us uid st') = Some r"
    show "search_body us uid st \<noteq> Continue st"
    proof
      assume c: "search_body us uid st = Continue st"
      with st have "f us uid st = Some r" by simp
      from ih[OF this] c show False by simp
    qed
  qed
  with assms show False by simp
qed

section \<open>An iteration that narrows the upper bound; the states of a run\<close>

lemma probe_half: "probe 5 10 0 2 = Some 1"
proof -
  define h :: nat where "h = 2 ^ 1073"
  have "(2::nat) ^ Suc 1073 = 2 * 2 ^ 1073" by (rule power_Suc)
  moreover have "Suc 1073 = 1074" by simp
  ultimately have U: "f64_unit = 2 * h" by (simp only: f64_unit_def h_def)
  have hpos: "0 < h" by (simp add: h_def)
  have rh: "f64_repr h"
    using f64_repr_mult[of 1 1073] by (simp add: h_def)
  have rU: "f64_repr f64_unit"
    using f64_repr_unit[of 1] by simp
  have c5: "f64_of_nat 5 = 5 * f64_unit" by (rule f64_of_nat_exact) simp
  have c10: "f64_of_nat 10 = 10 * f64_unit" by (rule f64_of_nat_exact) simp
  have c0: "f64_of_nat 0 = 0 * f64_unit" by (rule f64_of_nat_exact) simp
  have c2: "f64_of_nat 2 = 2 * f64_unit" by (rule f64_of_nat_exact) simp
  have e1: "5 * f64_unit * f64_unit = h * (10 * f64_unit)" by (simp add: U)
  have r1: "f64_round (h * (10 * f64_unit)) (10 * f64_unit) = h"
    using f64_unit_pos by (intro f64_round_exact rh) simp
  have nz: "10 * f64_unit \<noteq> 0" using f64_unit_pos by simp
  have d: "f64_div (5 * f64_unit) (10 * f64_unit) = Some h"
    unfolding f64_div_def e1 r1 using nz by (simp only: if_False)
  have e2: "h * (2 * f64_unit) = f64_unit * f64_unit" by (simp add: U)
  have r2: "f64_round (f64_unit * f64_unit) f64_unit = f64_unit"
    by (rule f64_round_exact[OF f64_unit_pos rU])
  have m: "f64_mul h (2 * f64_unit) = f64_unit" unfolding f64_mul_def e2 r2 ..
  have "f64_round (f64_unit * 1) 1 = f64_unit" by (rule f64_round_exact[OF _ rU]) simp
  then have a: "f64_add (0 * f64_unit) f64_unit = f64_unit" by (simp add: f64_add_def)
  have f: "f64_floor f64_unit = 1" using f64_unit_pos by (simp add: f64_floor_def)
  show ?thesis unfolding probe_def c5 c10 c0 c2 d option.case m a f ..
qed

lemma upper_narrowing_body:
  "search_body [0, 9, 10] 5 (search_init [0, 9, 10])
     = Continue \<lparr>minIndex = 0, maxIndex = 1, minUID = 0, maxUID = 9\<rparr>"
proof -
  have "checkIndex_of 5 0 2 0 10 = Some 1"
    using probe_half by (simp add: checkIndex_of_probe)
  then show ?thesis by (simp add: search_body_def search_init_def)
qed

lemma search_iter_inv:
  assumes s: "sorted_wrt (<) us"
    and k1: "unat (last us - hd us) \<le> 2 ^ k" and k2: "length us * 2 ^ k \<le> 2 ^ 53"
  shows "search_inv us uid st0 \<Longrightarrow> search_iter us uid n st0 = Continue st
           \<Longrightarrow> search_inv us uid st"
proof (induction n arbitrary: st0)
  case 0
  then show ?case by simp
next
  case (Suc n)
  from search_body_step[OF s k1 k2 Suc.prems(1)] Suc.prems(2)
  obtain st' where "search_body us uid st0 = Continue st'" "search_inv us uid st'"
    by auto
  with Suc.IH[of st'] Suc.prems(2) show ?case by simp
qed

section \<open>Lookups, set resolution, and the index under mutation\<close>

lemma seqno_index_in_range:
  assumes "\<not> v < 1" and "\<not> messages box < v"
  shows "unat (v - 1) < length (uids box)"
proof -
  have v: "v \<noteq> 0" using assms(1) by (auto simp: word_less_1)
  then have "unat (v - 1) = unat v - 1" by (simp add: unat_minus_one)
  moreover have "0 < unat v" using v by (simp add: unat_gt_0)
  moreover have "unat v \<le> unat (messages box)"
    using assms(2) by (simp add: word_less_nat_alt not_less)
  moreover have "unat (messages box) \<le> length (uids box)"
    by (simp add: messages_def unat_of_nat)
  ultimately show ?thesis by simp
qed

lemma setByUID_loop_stops:
  assumes "Min_bound r = SeqMalformed \<or> Min_bound r = SeqNil \<or>
           (\<exists>v. Min_bound r = SeqValue v \<and> Max_bound r = SeqMalformed)"
  shows "setByUID_loop cd box (pre @ r # post) msgs = setByUID_loop cd box pre msgs"
proof (induction pre arbitrary: msgs)
  case Nil
  from assms show ?case
    by (auto simp: Last_seq_def Nil_seq_def Value_seq_def)
next
  case (Cons a pre)
  show ?case
    by (simp add: Cons.IH cong: option.case_cong sum.case_cong if_cong)
qed

lemma setBySequenceNumber_loop_stops:
  assumes "Min_bound r = SeqMalformed \<or> Min_bound r = SeqNil \<or>
           (\<exists>v. Min_bound r = SeqValue v \<and> Max_bound r = SeqMalformed)"
  shows "setBySequenceNumber_loop cd box (pre @ r # post) msgs = setBySequenceNumber_loop cd box pre msgs"
proof (induction pre arbitrary: msgs)
  case Nil
  from assms show ?case
    by (auto simp: Last_seq_def Nil_seq_def Value_seq_def then_run_def index_def Let_def
                   seqno_index_in_range)
next
  case (Cons a pre)
  show ?case
    by (simp add: Cons.IH Let_def cong: option.case_cong sum.case_cong if_cong)
qed


lemma interpolation_exact_length31:
  assumes s: "sorted_wrt (<) (us :: 64 word list)" and e: "interpolation_exact us"
  shows "length us < 2 ^ 31"
proof (rule ccontr)
  assume "\<not> length us < 2 ^ 31"
  then have big: "2 ^ 31 \<le> length us" by simp
  then have l: "2 \<le> length us" by simp
  have "unat (us ! (length us - 1)) - unat (us ! 0) \<le> unat (last us - hd us)"
    using l by (intro span_bound[OF s]) simp_all
  moreover have "unat (us ! 0) + (length us - 1 - 0) \<le> unat (us ! (length us - 1))"
    using l by (intro ascending_gap[OF s]) simp_all
  ultimately have "length us - 1 \<le> unat (last us - hd us)" by simp
  moreover have "2 ^ 30 \<le> length us - 1" using big by simp
  ultimately have "(2::nat) ^ 30 \<le> unat (last us - hd us)" by (rule order_trans[rotated])
  then have "(2::nat) ^ 30 * 2 ^ 31 \<le> unat (last us - hd us) * length us"
    using big by (rule mult_le_mono)
  also have "\<dots> \<le> 2 ^ 52" using e by (simp only: interpolation_exact_def)
  finally show False by simp
qed

lemma position_le_length: "position us uid \<le> length us"
  by (simp add: position_def)

lemma bmsgByUID_lookup:
  assumes s: "sorted_wrt (<) (uids box)" and e: "interpolation_exact (uids box)"
  shows "bmsgByUID cd box uid =
           (if uid \<in> set (uids box)
            then (case GetMessage (mbox box) uid of
                    Inl err \<Rightarrow> Some (Return None)
                  | Inr (suffix, msg) \<Rightarrow>
                      if suffix \<noteq> 2 then Some (Return None)
                      else Some (Return (decodeBitmessageForImap cd uid
                                   (word_of_nat (position (uids box) uid + 1)) msg)))
            else Some (Return None))"
proof -
  let ?us = "uids box"
  let ?p = "position ?us uid"
  have g: "GetSequenceNumber ?us uid = Some (Return (word_of_nat (?p + 1)))"
    using s e by (rule GetSequenceNumber_position)
  have len: "length ?us < 2 ^ 31" using s e by (rule interpolation_exact_length31)
  have ple: "?p \<le> length ?us" by (rule position_le_length)
  have p32: "?p + 1 < 2 ^ 32" using ple len by simp
  have up: "unat (word_of_nat (?p + 1) :: 32 word) = ?p + 1"
  proof -
    have "unat (word_of_nat (?p + 1) :: 32 word) = (?p + 1) mod 2 ^ LENGTH(32)"
      by (rule unat_of_nat)
    then show ?thesis using p32 by simp
  qed
  have ul: "unat (word_of_nat (length ?us) :: 32 word) = length ?us"
  proof -
    have "unat (word_of_nat (length ?us) :: 32 word) = length ?us mod 2 ^ LENGTH(32)"
      by (rule unat_of_nat)
    then show ?thesis using len by simp
  qed
  have cmp: "(word_of_nat (length ?us) :: 32 word) < word_of_nat (?p + 1) \<longleftrightarrow> ?p = length ?us"
    using ple by (simp only: word_less_nat_alt up ul) auto
  have idx: "unat ((word_of_nat (?p + 1) :: 32 word) - 1) = ?p"
  proof -
    have "(word_of_nat (?p + 1) :: 32 word) - 1 = word_of_nat ?p" by simp
    moreover have "unat (word_of_nat ?p :: 32 word) = ?p mod 2 ^ LENGTH(32)"
      by (rule unat_of_nat)
    ultimately show ?thesis using p32 by simp
  qed
  show ?thesis
  proof (cases "uid \<in> set ?us")
    case True
    then obtain c where c: "c < length ?us" "?us ! c = uid" by (auto simp: in_set_conv_nth)
    have pc: "?p = c" using s c by (rule position_hit)
    have "\<not> (word_of_nat (length ?us) :: 32 word) < word_of_nat (?p + 1)"
      using cmp pc c by simp
    then show ?thesis
      using True c pc idx unfolding bmsgByUID_def g
      by (simp add: then_run_def index_def split: sum.splits)
  next
    case False
    show ?thesis
    proof (cases "?p = length ?us")
      case True
      then show ?thesis using False cmp unfolding bmsgByUID_def g
        by (simp add: then_run_def)
    next
      case np: False
      with ple have pl: "?p < length ?us" by simp
      have "?us ! ?p \<noteq> uid" using False pl by (metis nth_mem)
      then show ?thesis using False cmp np pl idx unfolding bmsgByUID_def g
        by (simp add: then_run_def index_def)
    qed
  qed
qed

lemma cut_uid_filter: "distinct us \<Longrightarrow> cut_uid ident us = filter (\<lambda>u. u \<noteq> ident) us"
proof (induction us)
  case Nil
  then show ?case by simp
next
  case (Cons a us)
  have "ident \<notin> set us \<Longrightarrow> filter (\<lambda>u. u \<noteq> ident) us = us"
    by (rule filter_True) auto
  with Cons show ?case by auto
qed

lemma length_cut_uid: "ident \<in> set us \<Longrightarrow> length (cut_uid ident us) = length us - 1"
proof (induction us)
  case Nil
  then show ?case by simp
next
  case (Cons a us)
  show ?case
  proof (cases "a = ident")
    case True
    then show ?thesis by simp
  next
    case False
    with Cons.prems have i: "ident \<in> set us" by simp
    then have "0 < length us" by (rule length_pos_if_in_set)
    with Cons.IH[OF i] False show ?thesis by simp
  qed
qed

lemma set_cut_uid: "set (cut_uid ident us) \<subseteq> set us"
  by (induction us) auto

lemma sorted_wrt_cut_uid: "sorted_wrt P us \<Longrightarrow> sorted_wrt P (cut_uid ident us)"
proof (induction us)
  case Nil
  then show ?case by simp
next
  case (Cons a us)
  then show ?case using set_cut_uid[of ident us] by auto
qed


lemma updateMailboxStats_keeps:
  "uids (updateMailboxStats box entry) = uids box"
  "mbox (updateMailboxStats box entry) = mbox box"
  "sub (updateMailboxStats box entry) = sub box"
  by (simp_all add: updateMailboxStats_def Let_def)

lemma refresh_visit_entry:
  "refresh_visit cd (ident, suffix, msg) (box, list) =
     (case DecodeBitmessage cd msg of
        None \<Rightarrow> (Some DecodeFailed, box, list)
      | Some entry \<Rightarrow>
          if rejected box entry then (None, box, list)
          else (None, updateMailboxStats box entry, list @ [ident]))"
  by (simp add: refresh_visit_def)

lemma refresh_scan:
  assumes "for_each (refresh_visit cd) es (b, l) = (r, b', l')"
  shows "uids b' = uids b \<and> mbox b' = mbox b \<and>
         (\<exists>ys. l' = l @ ys \<and> set ys \<subseteq> fst ` set es \<and> (distinct (map fst es) \<longrightarrow> distinct ys))"
  using assms
proof (induction es arbitrary: b l)
  case Nil
  then show ?case by simp
next
  case (Cons x es)
  obtain ident suffix msg where x: "x = (ident, suffix, msg)" by (cases x)
  show ?case
  proof (cases "DecodeBitmessage cd msg")
    case None
    with Cons.prems x show ?thesis by (simp add: refresh_visit_entry)
  next
    case (Some entry)
    show ?thesis
    proof (cases "rejected b entry")
      case True
      with Cons.prems x Some have "for_each (refresh_visit cd) es (b, l) = (r, b', l')"
        by (simp add: refresh_visit_entry)
      from Cons.IH[OF this] show ?thesis by auto
    next
      case False
      with Cons.prems x Some
      have "for_each (refresh_visit cd) es (updateMailboxStats b entry, l @ [ident]) = (r, b', l')"
        by (simp add: refresh_visit_entry)
      from Cons.IH[OF this] obtain ys where
        k: "uids b' = uids b" "mbox b' = mbox b"
        and ys: "l' = (l @ [ident]) @ ys" "set ys \<subseteq> fst ` set es"
          "distinct (map fst es) \<longrightarrow> distinct ys"
        by (auto simp: updateMailboxStats_keeps)
      have "l' = l @ (ident # ys)" using ys(1) by simp
      moreover have "set (ident # ys) \<subseteq> fst ` set (x # es)" using ys(2) x by auto
      moreover have "distinct (map fst (x # es)) \<longrightarrow> distinct (ident # ys)"
        using ys(2,3) x by auto
      ultimately show ?thesis using k by blast
    qed
  qed
qed

lemma distinct_map_filter_fst: "distinct (map fst es) \<Longrightarrow> distinct (map fst (filter P es))"
  by (rule distinct_map_filter)

lemma refresh_index:
  assumes "refresh cd box = (r, box')"
  shows "mbox box' = mbox box \<and>
         (r \<noteq> None \<longrightarrow> uids box' = uids box) \<and>
         (r = None \<and> distinct (map fst (entries (mbox box))) \<longrightarrow> sorted_wrt (<) (uids box'))"
proof -
  let ?box0 = "box\<lparr>nextUID := ucast (NextID (mbox box)), numRecent := 0, numUnseen := 0\<rparr>"
  show ?thesis
  proof (cases "OpForEach \<in> failing (mbox box)")
    case True
    with assms show ?thesis by (auto simp: refresh_def ForEachMessage_def Let_def)
  next
    case False
    let ?es = "filter (in_range 0 0 2) (entries (mbox box))"
    obtain r1 b1 l1 where f: "for_each (refresh_visit cd) ?es (?box0, []) = (r1, b1, l1)"
      by (metis prod_cases3)
    from refresh_scan[OF f] obtain ys where
      k: "uids b1 = uids box" "mbox b1 = mbox box"
      and ys: "l1 = ys" "distinct (map fst ?es) \<longrightarrow> distinct ys" by auto
    show ?thesis
    proof (cases r1)
      case None
      with False f have "refresh cd box = (None, b1\<lparr>uids := sort l1\<rparr>)"
        by (simp add: refresh_def ForEachMessage_def Let_def)
      with assms have "r = None" "box' = b1\<lparr>uids := sort l1\<rparr>" by simp_all
      moreover have "distinct (map fst (entries (mbox box))) \<longrightarrow> sorted_wrt (<) (sort l1)"
        using ys distinct_map_filter_fst[of "entries (mbox box)" "in_range 0 0 2"]
        by (auto simp: strict_sorted_iff)
      ultimately show ?thesis using k by simp
    next
      case (Some err)
      with False f have "refresh cd box = (Some err, b1)"
        by (simp add: refresh_def ForEachMessage_def Let_def)
      with assms have "r = Some err" "box' = b1" by simp_all
      then show ?thesis using k by simp
    qed
  qed
qed

lemma saveBitmessage_index:
  assumes "saveBitmessage cd box msg = (r, box')"
    and "sorted_wrt (<) (uids box)" and "distinct (map fst (entries (mbox box')))"
  shows "sorted_wrt (<) (uids box')"
proof -
  have R: "sorted_wrt (<) (uids box')"
    if "refresh cd (box\<lparr>mbox := f\<rparr>) = (r, box')" for f
  proof -
    from refresh_index[OF that] assms(2,3) show ?thesis
      by (cases r) auto
  qed
  from assms(1) show ?thesis
    using assms(2) R
    by (auto simp: saveBitmessage_def split: option.splits sum.splits if_splits prod.splits)
qed

section \<open>Set resolution, range by range\<close>

lemma append_all_append: "msgs @ append_all [] xs = append_all msgs xs"
  by (simp add: append_all_def split: option.splits)

lemma setByUID_loop_step:
  "setByUID_loop cd box (p # rest) msgs =
     then_run (rangeByUID cd box p) (\<lambda>step.
       case step of Ends \<Rightarrow> Some (Return msgs)
       | Adds xs \<Rightarrow> setByUID_loop cd box rest (msgs @ xs))"
  by (auto simp: rangeByUID_def then_run_def append_all_append append_all_def
           split: option.splits outcome.splits sum.splits)

lemma setBySequenceNumber_loop_step:
  "setBySequenceNumber_loop cd box (p # rest) msgs =
     then_run (rangeBySequenceNumber cd box p) (\<lambda>step.
       case step of Ends \<Rightarrow> Some (Return msgs)
       | Adds xs \<Rightarrow> setBySequenceNumber_loop cd box rest (msgs @ xs))"
  by (auto simp: rangeBySequenceNumber_def then_run_def append_all_append Let_def
           split: option.splits outcome.splits sum.splits)

lemma malformed_range_ends:
  assumes "(Min_bound r = SeqMalformed \<or> Max_bound r = SeqMalformed) \<and> Min_bound r \<noteq> SeqLast"
  shows "rangeByUID cd box r = Some (Return Ends)"
    and "rangeBySequenceNumber cd box r = Some (Return Ends)"
proof -
  from assms have st: "Min_bound r = SeqMalformed \<or> Min_bound r = SeqNil \<or>
      (\<exists>v. Min_bound r = SeqValue v \<and> Max_bound r = SeqMalformed)"
    by (cases "Min_bound r") auto
  then show "rangeByUID cd box r = Some (Return Ends)"
    by (auto simp: rangeByUID_def Last_seq_def Nil_seq_def Value_seq_def)
  from st show "rangeBySequenceNumber cd box r = Some (Return Ends)"
    by (auto simp: rangeBySequenceNumber_def Last_seq_def Nil_seq_def Value_seq_def
          then_run_def index_def Let_def seqno_index_in_range)
qed

lemma setByUID_loop_prefix:
  assumes "list_all2 (\<lambda>p xs. rangeByUID cd box p = Some (Return (Adds xs))) pre xss"
    and "rangeByUID cd box r = Some (Return Ends)"
  shows "setByUID_loop cd box (pre @ r # post) msgs = Some (Return (msgs @ concat xss))"
  using assms(1)
proof (induction pre xss arbitrary: msgs rule: list_all2_induct)
  case Nil
  show ?case
    by (simp only: append_Nil setByUID_loop_step assms(2)) (simp add: then_run_def)
next
  case (Cons p pre xs xss)
  show ?case
    by (simp only: append_Cons setByUID_loop_step Cons.hyps(1)) (simp add: then_run_def Cons.IH)
qed

lemma setBySequenceNumber_loop_prefix:
  assumes "list_all2 (\<lambda>p xs. rangeBySequenceNumber cd box p = Some (Return (Adds xs))) pre xss"
    and "rangeBySequenceNumber cd box r = Some (Return Ends)"
  shows "setBySequenceNumber_loop cd box (pre @ r # post) msgs = Some (Return (msgs @ concat xss))"
  using assms(1)
proof (induction pre xss arbitrary: msgs rule: list_all2_induct)
  case Nil
  show ?case
    by (simp only: append_Nil setBySequenceNumber_loop_step assms(2)) (simp add: then_run_def)
next
  case (Cons p pre xs xss)
  show ?case
    by (simp only: append_Cons setBySequenceNumber_loop_step Cons.hyps(1))
       (simp add: then_run_def Cons.IH)
qed

section \<open>The mailbox whose identifiers are far apart\<close>

lemma f64_round_2_60_less_2: "f64_round (2 ^ 60 - 2) 1 = 2 ^ 60"
proof -
  have "floorlog 2 (2 ^ 60 - 2) = 60" by (rule floorlog_2_eqI) simp_all
  then show ?thesis by (simp add: f64_round_def round_half_even_def Let_def)
qed

lemma f64_of_nat_2_60_less_2: "f64_of_nat (2 ^ 60 - 2) = f64_of_nat (2 ^ 60)"
proof -
  have "f64_repr (1 * 2 ^ 60)" by (rule f64_repr_mult) simp
  then have "f64_round (2 ^ 60 * 1) 1 = 2 ^ 60" by (intro f64_round_exact) simp_all
  then show ?thesis by (simp only: f64_of_nat_scale f64_round_2_60_less_2 mult_1_right)
qed

lemma probe_wide:
  "probe (2 ^ 60 - 1) (2 ^ 60) 0 2 = Some 2" "probe (2 ^ 60 - 2) (2 ^ 60) 0 2 = Some 2"
proof -
  have p: "probe (2 ^ 60) (2 ^ 60) 0 2 = Some (0 + 2)" by (rule probe_eq) simp_all
  show "probe (2 ^ 60 - 1) (2 ^ 60) 0 2 = Some 2"
    using p f64_of_nat_2_60 by (simp add: probe_def)
  show "probe (2 ^ 60 - 2) (2 ^ 60) 0 2 = Some 2"
    using p f64_of_nat_2_60_less_2 by (simp add: probe_def)
qed

lemma wide_init:
  "search_init [1, 2 ^ 60, 2 ^ 60 + 1]
     = \<lparr>minIndex = 0, maxIndex = 2, minUID = 1, maxUID = 2 ^ 60 + 1\<rparr>"
  by (simp add: search_init_def)

lemma wide_stuck_body:
  assumes "uid = 2 ^ 60 \<or> uid = 2 ^ 60 - 1"
  shows "search_body [1, 2 ^ 60, 2 ^ 60 + 1] uid (search_init [1, 2 ^ 60, 2 ^ 60 + 1])
           = Continue (search_init [1, 2 ^ 60, 2 ^ 60 + 1])"
proof -
  have u: "unat (uid - 1) = 2 ^ 60 - 1 \<or> unat (uid - 1) = 2 ^ 60 - 2"
    using assms by auto
  have m: "unat ((2 ^ 60 + 1 :: 64 word) - 1) = 2 ^ 60" by simp
  have "probe (unat (uid - 1)) (2 ^ 60) 0 2 = Some 2"
    using u probe_wide by auto
  then have c: "checkIndex_of uid 0 2 1 (2 ^ 60 + 1) = Some 2"
    by (simp add: checkIndex_of_probe m)
  have lt: "uid < 2 ^ 60 + 1" "uid \<noteq> 2 ^ 60 + 1"
    using assms by (auto simp: word_less_nat_alt)
  show ?thesis
    unfolding wide_init
    using c lt by (simp add: search_body_def)
qed

lemma wide_search:
  assumes "uid = 2 ^ 60 \<or> uid = 2 ^ 60 - 1"
  shows "GetSequenceNumber [1, 2 ^ 60, 2 ^ 60 + 1] uid = None"
proof -
  have "search_loop [1, 2 ^ 60, 2 ^ 60 + 1] uid (search_init [1, 2 ^ 60, 2 ^ 60 + 1]) = None"
    using wide_stuck_body[OF assms] by (rule search_loop_stuck)
  moreover have "\<not> uid < 1" "\<not> 2 ^ 60 + 1 < uid"
    using assms by (auto simp: word_less_nat_alt)
  ultimately show ?thesis by (simp add: GetSequenceNumber_def)
qed

lemma wide_lookup:
  assumes "uid = 2 ^ 60 \<or> uid = 2 ^ 60 - 1"
  shows "bmsgByUID cd wide_box uid = None"
  using wide_search[OF assms] by (simp add: bmsgByUID_def wide_box_def then_run_def)

lemma wide_box_sorted: "sorted_wrt (<) (uids wide_box)"
  by (simp add: wide_box_def word_less_nat_alt)

section \<open>Save of a replacement whose date differs\<close>

text \<open>
  Where the search returns (a strictly ascending index within the bound), \<open>Save\<close> of
  a mail with the identifier of a stored message and another date returns an error
  and leaves the mailbox as it was.
\<close>

lemma Save_changed_date_within_bound:
  assumes s: "sorted_wrt (<) (uids box)" and e: "interpolation_exact (uids box)"
    and nz: "ImapUID email \<noteq> 0" and m: "ImapUID email \<in> set (uids box)"
    and g: "GetMessage (mbox box) (ImapUID email) = Inr (2, msg)"
    and d: "DecodeBitmessage cd msg = Some previous"
    and t: "TimeReceived (ImapData previous) \<noteq> Date email"
    and c: "(if drafts box then NewBitmessageDraftFromSMTP cd (Content email)
             else NewBitmessageFromSMTP cd (Content email)) \<noteq> None"
  shows "Save cd box email = Some (Return (Some CannotChangeDateReceived, box))"
proof -
  from c obtain converted where
    "(if drafts box then NewBitmessageDraftFromSMTP cd (Content email)
      else NewBitmessageFromSMTP cd (Content email)) = Some converted" by auto
  then show ?thesis
    unfolding Save_def
    using nz m g d t
    by (simp add: bmsgByUID_lookup[OF s e] then_run_def decodeBitmessageForImap_def Let_def)
qed


section \<open>The scans of the store\<close>














section \<open>The example mailbox\<close>

lemma example_box_ok:
  "sorted_wrt (<) (uids example_box)" "interpolation_exact (uids example_box)"
  by (simp_all add: example_box_def interpolation_exact_def)

lemmas example_defs = example_box_def example_folder_def example_codec_def damaged_box_def
  failing_box_def example_message_def

lemmas refresh_eval = refresh_def ForEachMessage_def in_range_def refresh_visit_entry
  updateMailboxStats_def rejected_def HasFlags_def FlagRecent_def FlagSeen_def NextID_def Let_def

lemma ev_refresh: "refresh example_codec example_box = (None, example_box)"
  by (simp add: refresh_eval example_defs)

lemma ev_new: "NewMailbox example_codec example_folder = Inr example_box"
  by (simp add: NewMailbox_def refresh_eval example_defs)

lemma ev_refresh_damaged:
  "refresh example_codec damaged_box
     = (Some DecodeFailed, damaged_box\<lparr>nextUID := 16, numRecent := 0, numUnseen := 0\<rparr>)"
  by (simp add: refresh_eval example_defs)

lemma ev_addnew:
  "AddNew example_codec example_box example_message FlagRecent (example_time 200)
     = (None, \<lparr>mbox = \<lparr>entries = [(5, 2, [32, 1]), (10, 2, [0, 2]), (15, 2, [1, 3]), (16, 2, [32, 4])],
                        next_id = 17, failing = {}\<rparr>,
               sub = None, drafts = False, uids = [5, 10, 15, 16],
               numRecent = 2, numUnseen = 3, nextUID = 17\<rparr>)"
  by (simp add: AddNew_def saveBitmessage_def InsertNewMessage_def messages_def refresh_eval example_defs)

lemma ev_lookup:
  "bmsgByUID example_codec example_box 10
     = Some (Return (Some \<lparr>ImapData = \<lparr>UID = 10, SequenceNumber = 2, Flags = 0, TimeReceived = example_time 100\<rparr>,
                           Ack = [2], state = \<lparr>AckReceived = False\<rparr>, Encoding = 2, Object = []\<rparr>))"
proof -
  have u: "10 \<in> set (uids example_box)" by (simp add: example_box_def)
  have g: "GetMessage (mbox example_box) 10 = Inr (2, [0, 2])"
    by (simp add: GetMessage_def example_box_def example_folder_def)
  have b: "bmsgByUID example_codec example_box 10
             = Some (Return (decodeBitmessageForImap example_codec 10
                       (word_of_nat (position (uids example_box) 10 + 1)) [0, 2]))"
    by (simp add: bmsgByUID_lookup[OF example_box_ok] u g)
  show ?thesis unfolding b
    by (simp add: decodeBitmessageForImap_def position_def example_defs)
qed

lemma ev_save:
  "Save example_codec example_box
     \<lparr>ImapUID = 10, ImapSequenceNumber = 2, ImapFlags = 1, Date = example_time 100, Content = [2]\<rparr>
     = Some (Return (None,
         \<lparr>mbox = \<lparr>entries = [(5, 2, [32, 1]), (10, 2, [1, 2]), (15, 2, [1, 3])],
                  next_id = 16, failing = {}\<rparr>,
          sub = None, drafts = False, uids = [5, 10, 15],
          numRecent = 1, numUnseen = 1, nextUID = 16\<rparr>))"
proof -
  have u: "10 \<in> set (uids example_box)" by (simp add: example_box_def)
  have g: "GetMessage (mbox example_box) 10 = Inr (2, [0, 2])"
    by (simp add: GetMessage_def example_box_def example_folder_def)
  have c: "NewBitmessageFromSMTP example_codec [2]
             = Some \<lparr>ImapData = \<lparr>UID = 0, SequenceNumber = 0, Flags = 0, TimeReceived = example_time 0\<rparr>,
                     Ack = [2], state = \<lparr>AckReceived = False\<rparr>, Encoding = 2, Object = []\<rparr>"
    by (simp add: example_codec_def)
  have d: "\<not> drafts example_box" by (simp add: example_box_def)
  show ?thesis
    apply (simp add: Save_def c d ev_lookup then_run_def Let_def)
    apply (simp add: saveBitmessage_def DeleteMessage_def GetMessage_def InsertMessage_def
             refresh_eval example_defs)
    done
qed

lemma ev_delete:
  "DeleteBitmessageByUID example_codec example_box 10
     = Some (Return (None,
         \<lparr>mbox = \<lparr>entries = [(5, 2, [32, 1]), (15, 2, [1, 3])], next_id = 16, failing = {}\<rparr>,
          sub = None, drafts = False, uids = [5, 15],
          numRecent = 1, numUnseen = 1, nextUID = 16\<rparr>))"
proof -
  have u: "10 \<in> set (uids example_box)" by (simp add: example_box_def)
  have g: "GetMessage (mbox example_box) 10 = Inr (2, [0, 2])"
    by (simp add: GetMessage_def example_box_def example_folder_def)
  show ?thesis
    apply (simp add: DeleteBitmessageByUID_def ev_lookup then_run_def)
    apply (simp add: DeleteMessage_def FlagRecent_def FlagSeen_def Let_def example_defs)
    done
qed

lemma ev_new_wide: "NewMailbox example_codec wide_folder = Inr wide_box"
  by (simp add: NewMailbox_def refresh_eval wide_box_def wide_folder_def example_codec_def
        word_le_nat_alt)

lemma ev_messages: "messages example_box = 3"
  by (simp add: messages_def example_box_def)

lemma ev_search:
  "GetSequenceNumber (uids example_box) 5 = Some (Return 1)"
  "GetSequenceNumber (uids example_box) 10 = Some (Return 2)"
  "GetSequenceNumber (uids example_box) 15 = Some (Return 3)"
  by (simp_all only: GetSequenceNumber_position[OF example_box_ok])
     (simp_all add: position_def example_box_def)

lemma ev_lookup_first:
  "bmsgByUID example_codec example_box 5
     = Some (Return (Some \<lparr>ImapData = \<lparr>UID = 5, SequenceNumber = 1, Flags = 32, TimeReceived = example_time 100\<rparr>,
                           Ack = [1], state = \<lparr>AckReceived = False\<rparr>, Encoding = 2, Object = []\<rparr>))"
proof -
  have u: "5 \<in> set (uids example_box)" by (simp add: example_box_def)
  have g: "GetMessage (mbox example_box) 5 = Inr (2, [32, 1])"
    by (simp add: GetMessage_def example_box_def example_folder_def)
  have b: "bmsgByUID example_codec example_box 5
             = Some (Return (decodeBitmessageForImap example_codec 5
                       (word_of_nat (position (uids example_box) 5 + 1)) [32, 1]))"
    by (simp add: bmsgByUID_lookup[OF example_box_ok] u g)
  show ?thesis unfolding b
    by (simp add: decodeBitmessageForImap_def position_def example_defs)
qed

lemma ev_last:
  "lastBitmessage example_codec example_box
     = Some (Return (Some \<lparr>ImapData = \<lparr>UID = 15, SequenceNumber = 3, Flags = 1, TimeReceived = example_time 100\<rparr>,
                           Ack = [3], state = \<lparr>AckReceived = False\<rparr>, Encoding = 2, Object = []\<rparr>))"
proof -
  have u: "15 \<in> set (uids example_box)" by (simp add: example_box_def)
  have g: "GetMessage (mbox example_box) 15 = Inr (2, [1, 3])"
    by (simp add: GetMessage_def example_box_def example_folder_def)
  have b: "bmsgByUID example_codec example_box 15
             = Some (Return (decodeBitmessageForImap example_codec 15
                       (word_of_nat (position (uids example_box) 15 + 1)) [1, 3]))"
    by (simp add: bmsgByUID_lookup[OF example_box_ok] u g)
  have i: "index (uids example_box) (length (uids example_box) - 1) = Some (Return 15)"
    by (simp add: index_def example_box_def)
  show ?thesis
    unfolding lastBitmessage_def ev_messages i
    by (simp add: then_run_def b) (simp add: decodeBitmessageForImap_def position_def example_defs)
qed

lemmas getRange_eval = getRange_def ForEachMessage_def in_range_def getRange_visit_def
  decodeBitmessageForImap_def rejected_def

lemma ev_since:
  "bitmessagesSinceUID example_codec example_box 10
     = Some (Return (Some
         [\<lparr>ImapData = \<lparr>UID = 10, SequenceNumber = 2, Flags = 0, TimeReceived = example_time 100\<rparr>,
           Ack = [2], state = \<lparr>AckReceived = False\<rparr>, Encoding = 2, Object = []\<rparr>,
          \<lparr>ImapData = \<lparr>UID = 15, SequenceNumber = 3, Flags = 1, TimeReceived = example_time 100\<rparr>,
           Ack = [3], state = \<lparr>AckReceived = False\<rparr>, Encoding = 2, Object = []\<rparr>]))"
proof -
  have i: "index (uids example_box) (length (uids example_box) - 1) = Some (Return 15)"
    by (simp add: index_def example_box_def)
  show ?thesis
    unfolding bitmessagesSinceUID_def ev_search getSince_def i
    by (simp add: then_run_def getRange_eval example_defs)
qed

lemma ev_by_sequence_number:
  "bitmessageBySequenceNumber example_codec example_box 5 = Some (Return None)"
  "bitmessageBySequenceNumber example_codec example_box 10 = Some (Return None)"
  by (simp_all add: bitmessageBySequenceNumber_def ev_messages)




section \<open>Claims\<close>

text \<open>
  C1.  The claim: for every strictly ascending identifier sequence \<open>U\<close> and every
  target \<open>t\<close>, \<open>GetSequenceNumber\<close> returns the position \<open>t\<close> occupies or would
  occupy.  The code does not: on the strictly ascending sequence \<open>[0, 2\<^sup>6\<^sup>0]\<close> with the
  target \<open>2\<^sup>6\<^sup>0 - 1\<close> the conversion \<open>float64(uid - minUID)\<close> rounds \<open>2\<^sup>6\<^sup>0 - 1\<close> up
  to \<open>2\<^sup>6\<^sup>0\<close>, the ratio is exactly one, the probe is the upper index, whose identifier
  is above the target, and the iteration leaves every loop variable as it was: the
  call never returns.  (The claim asks for the result 2 there.)
\<close>

theorem GetSequenceNumber_never_returns:
  "GetSequenceNumber [0, 2 ^ 60] (2 ^ 60 - 1) = None"
  using search_loop_stuck[OF stuck_body] by (simp add: GetSequenceNumber_def)

text \<open>
  C2.  The claim: on every strictly ascending sequence and every target in its range
  the loop terminates, every iteration that does not return strictly advances the lower
  bound, and no probe leaves the sequence.  As stated it fails twice.  On
  \<open>[0, 2\<^sup>6\<^sup>0]\<close> with the target \<open>2\<^sup>6\<^sup>0 - 1\<close> the loop never returns.  On \<open>[0, 9, 10]\<close>
  with the target 5 the first iteration probes index 1, finds 9 above the target and
  narrows the upper bound: it does not return and the lower bound stays 0.
\<close>

theorem search_loop_counterexample:
  "sorted_wrt (<) [0, 2 ^ 60 :: 64 word] \<and>
   [0, 2 ^ 60] ! 0 \<le> (2 ^ 60 - 1 :: 64 word) \<and> (2 ^ 60 - 1 :: 64 word) \<le> [0, 2 ^ 60] ! 1 \<and>
   search_loop [0, 2 ^ 60] (2 ^ 60 - 1) (search_init [0, 2 ^ 60]) = None \<and>
   sorted_wrt (<) [0, 9, 10 :: 64 word] \<and> interpolation_exact [0, 9, 10] \<and>
   search_body [0, 9, 10] 5 (search_init [0, 9, 10])
     = Continue \<lparr>minIndex = 0, maxIndex = 1, minUID = 0, maxUID = 9\<rparr> \<and>
   minIndex (search_init [0, 9, 10]) = 0"
  using search_loop_stuck[OF stuck_body] upper_narrowing_body
  by (simp add: interpolation_exact_def search_init_def)

text \<open>
  C2, as amended.  Let the sequence be strictly ascending with span times length at
  most \<open>2\<^sup>5\<^sup>2\<close>, and the target in its range (at least two identifiers, so that the
  loop is entered).  Then the loop returns a value; and at the start of every
  iteration it reaches, the probe is defined and lies between the two index bounds,
  inside the sequence, and if the iteration does not return, the distance between the
  index bounds strictly decreases while neither bound moves outwards.
\<close>

theorem search_loop_terminates_in_bounds:
  assumes s: "sorted_wrt (<) us" and e: "interpolation_exact us"
    and l: "2 \<le> length us"
    and lo: "us ! 0 \<le> uid" and hi: "uid \<le> us ! (length us - 1)"
  shows "(\<exists>r. search_loop us uid (search_init us) = Some (Return r)) \<and>
         (\<forall>n st. search_iter us uid n (search_init us) = Continue st \<longrightarrow>
            (\<exists>c. checkIndex_of uid (minIndex st) (maxIndex st) (minUID st) (maxUID st) = Some c \<and>
                 minIndex st \<le> c \<and> c \<le> maxIndex st \<and> unat c < length us) \<and>
            (\<forall>st'. search_body us uid st = Continue st' \<longrightarrow>
                 unat (maxIndex st') - unat (minIndex st') < unat (maxIndex st) - unat (minIndex st) \<and>
                 minIndex st \<le> minIndex st' \<and> maxIndex st' \<le> maxIndex st))"
proof -
  from interpolation_exact_k[OF s e l] obtain k where
    k1: "unat (last us - hd us) \<le> 2 ^ k" and k2: "length us * 2 ^ k \<le> 2 ^ 53" by blast
  have i0: "search_inv us uid (search_init us)"
    using s e l lo hi by (rule search_init_inv)
  have "\<exists>r. search_loop us uid (search_init us) = Some (Return r)"
    using search_loop_returns[OF s k1 k2 i0] by blast
  moreover have "(\<exists>c. checkIndex_of uid (minIndex st) (maxIndex st) (minUID st) (maxUID st) = Some c \<and>
                 minIndex st \<le> c \<and> c \<le> maxIndex st \<and> unat c < length us) \<and>
            (\<forall>st'. search_body us uid st = Continue st' \<longrightarrow>
                 unat (maxIndex st') - unat (minIndex st') < unat (maxIndex st) - unat (minIndex st) \<and>
                 minIndex st \<le> minIndex st' \<and> maxIndex st' \<le> maxIndex st)"
    if it: "search_iter us uid n (search_init us) = Continue st" for n st
  proof -
    have i: "search_inv us uid st" using search_iter_inv[OF s k1 k2 i0 it] .
    from checkIndex_bounds[OF s k1 k2 i] obtain c where
      c: "checkIndex_of uid (minIndex st) (maxIndex st) (minUID st) (maxUID st) = Some c"
        "unat (minIndex st) \<le> unat c" "unat c \<le> unat (maxIndex st)" by blast
    have "unat (maxIndex st) < length us" using i by (simp add: search_inv_def)
    with c have 1: "\<exists>c. checkIndex_of uid (minIndex st) (maxIndex st) (minUID st) (maxUID st) = Some c \<and>
                 minIndex st \<le> c \<and> c \<le> maxIndex st \<and> unat c < length us"
      by (auto simp: word_le_nat_alt)
    have 2: "\<forall>st'. search_body us uid st = Continue st' \<longrightarrow>
                 unat (maxIndex st') - unat (minIndex st') < unat (maxIndex st) - unat (minIndex st) \<and>
                 minIndex st \<le> minIndex st' \<and> maxIndex st' \<le> maxIndex st"
      using search_body_step[OF s k1 k2 i] by (auto simp: word_le_nat_alt)
    from 1 2 show ?thesis ..
  qed
  ultimately show ?thesis by blast
qed

theorem search_loop_terminates_in_bounds_witness:
  "sorted_wrt (<) [5, 10, 15 :: 64 word] \<and> interpolation_exact [5, 10, 15] \<and>
   (2::nat) \<le> length [5, 10, 15 :: 64 word] \<and> [5, 10, 15] ! 0 \<le> (7 :: 64 word) \<and>
   (7 :: 64 word) \<le> [5, 10, 15] ! (length [5, 10, 15 :: 64 word] - 1) \<and>
   (\<exists>r. search_loop [5, 10, 15] 7 (search_init [5, 10, 15]) = Some (Return r))"
proof -
  have s: "sorted_wrt (<) [5, 10, 15 :: 64 word]" by simp
  have e: "interpolation_exact [5, 10, 15]" by (simp add: interpolation_exact_def)
  have l: "(2::nat) \<le> length [5, 10, 15 :: 64 word]" by simp
  have lo: "[5, 10, 15] ! 0 \<le> (7 :: 64 word)" by simp
  have hi: "(7 :: 64 word) \<le> [5, 10, 15] ! (length [5, 10, 15 :: 64 word] - 1)" by simp
  from search_loop_terminates_in_bounds[OF s e l lo hi] s e l lo hi show ?thesis by blast
qed





text \<open>
  C4.  The claim: in a non-empty mailbox, a range of a sequence-number set with a
  valid lower bound \<open>s\<close> and no upper bound resolves to the message at sequence number
  \<open>s\<close>.  The code looks up the identifier at position \<open>s\<close> and then hands that
  identifier, not \<open>s\<close>, to \<open>bitmessageBySequenceNumber\<close>.  In the example mailbox, whose
  identifiers are 5, 10 and 15, the set \<open>1\<close> resolves to a single \<open>nil\<close> (5 is not a
  sequence number of a mailbox of three), though the message at sequence number 1
  is there: it is the one under identifier 5.
\<close>

theorem single_sequence_number_resolves_identifier_as_position:
  "messages example_box \<noteq> 0 \<and>
   bitmessageSetBySequenceNumber example_codec example_box
     [\<lparr>Min_bound = SeqValue 1, Max_bound = SeqNil\<rparr>] = Some (Return [None]) \<and>
   (\<exists>m. bitmessageBySequenceNumber example_codec example_box 1 = Some (Return (Some m)) \<and>
        UID (ImapData m) = 5)"
proof -
  have m: "messages example_box = 3" by (simp add: messages_def example_box_def)
  have i: "index (uids example_box) 0 = Some (Return 5)"
    by (simp add: index_def example_box_def)
  have 1: "bitmessageBySequenceNumber example_codec example_box 5 = Some (Return None)"
    by (simp add: bitmessageBySequenceNumber_def m)
  have 2: "bitmessageSetBySequenceNumber example_codec example_box
     [\<lparr>Min_bound = SeqValue 1, Max_bound = SeqNil\<rparr>] = Some (Return [None])"
    by (simp add: bitmessageSetBySequenceNumber_def m Last_seq_def Nil_seq_def Value_seq_def
          i 1 then_run_def)
  have g: "GetMessage (mbox example_box) 5 = Inr (2, [32, 1])"
    by (simp add: GetMessage_def example_box_def example_folder_def)
  have u: "5 \<in> set (uids example_box)" by (simp add: example_box_def)
  have "\<exists>m. bmsgByUID example_codec example_box 5 = Some (Return (Some m)) \<and> UID (ImapData m) = 5"
    by (simp add: bmsgByUID_lookup[OF example_box_ok] u g decodeBitmessageForImap_def
          example_codec_def)
  then have 3: "\<exists>m. bitmessageBySequenceNumber example_codec example_box 1 = Some (Return (Some m)) \<and>
        UID (ImapData m) = 5"
    by (simp add: bitmessageBySequenceNumber_def m i then_run_def)
  show ?thesis using m 2 3 by simp
qed

text \<open>
  C5.  The claim: \<open>DeleteBitmessageByUID\<close> does nothing and succeeds when the
  identifier is not present, and when it is present removes exactly that entry and
  adjusts the counts.  Two mailboxes show that this is not so for every mailbox.
  In the first the identifier 5 is in the index and in the store, but its stored
  bytes do not decode: \<open>bmsgByUID\<close> returns \<open>nil\<close> for it as for a missing message, so
  the call returns \<open>nil\<close> and removes nothing.  In the second, whose identifiers are
  1, \<open>2\<^sup>6\<^sup>0\<close> and \<open>2\<^sup>6\<^sup>0 + 1\<close>, the call returns neither for \<open>2\<^sup>6\<^sup>0\<close>, which is
  present, nor for \<open>2\<^sup>6\<^sup>0 - 1\<close>, which is not: the search of the index does not end
  (C1).
\<close>

theorem DeleteBitmessageByUID_counterexample:
  "5 \<in> set (uids damaged_box) \<and>
   GetMessage (mbox damaged_box) 5 = Inr (2, []) \<and>
   DeleteBitmessageByUID example_codec damaged_box 5 = Some (Return (None, damaged_box)) \<and>
   2 ^ 60 \<in> set (uids wide_box) \<and>
   DeleteBitmessageByUID example_codec wide_box (2 ^ 60) = None \<and>
   2 ^ 60 - 1 \<notin> set (uids wide_box) \<and>
   DeleteBitmessageByUID example_codec wide_box (2 ^ 60 - 1) = None"
proof -
  have ok: "sorted_wrt (<) (uids damaged_box)" "interpolation_exact (uids damaged_box)"
    by (simp_all add: damaged_box_def example_box_def interpolation_exact_def)
  have u: "5 \<in> set (uids damaged_box)" by (simp add: damaged_box_def example_box_def)
  have g: "GetMessage (mbox damaged_box) 5 = Inr (2, [])"
    by (simp add: GetMessage_def damaged_box_def example_box_def example_folder_def)
  have 1: "DeleteBitmessageByUID example_codec damaged_box 5 = Some (Return (None, damaged_box))"
    by (simp add: DeleteBitmessageByUID_def bmsgByUID_lookup[OF ok] u g then_run_def
          decodeBitmessageForImap_def example_codec_def)
  have w: "2 ^ 60 \<in> set (uids wide_box)" "2 ^ 60 - 1 \<notin> set (uids wide_box)"
    by (simp_all add: wide_box_def)
  have 2: "DeleteBitmessageByUID example_codec wide_box (2 ^ 60) = None"
    "DeleteBitmessageByUID example_codec wide_box (2 ^ 60 - 1) = None"
    by (simp_all add: DeleteBitmessageByUID_def wide_lookup then_run_def)
  show ?thesis using u g 1 w 2 by simp
qed

text \<open>
  What holds instead, on a mailbox whose index is strictly ascending and within the
  bound of the search.  The call returns \<open>nil\<close> and leaves the mailbox, store included,
  as it was when the identifier is not in the index, or is in the index but the
  store does not return its bytes, or returns them under another tag than 2, or they
  do not decode.  When the message is found and decodes, and the store fails to
  delete it, the call returns the error of the store and leaves the mailbox as it
  was.  When the store deletes it, the call returns \<open>nil\<close>; the index is the old one
  without that identifier, the others in their order, one entry shorter; the recent
  count is one less (modulo \<open>2\<^sup>3\<^sup>2\<close>) if and only if the message had the recent flag,
  the unseen count one less if and only if it lacked the seen flag; the store is the
  one the deletion returned, and nothing else of the mailbox changes (no refresh
  runs).
\<close>

theorem DeleteBitmessageByUID_effect:
  assumes s: "sorted_wrt (<) (uids box)" and e: "interpolation_exact (uids box)"
  shows "(ident \<notin> set (uids box) \<longrightarrow>
            DeleteBitmessageByUID cd box ident = Some (Return (None, box))) \<and>
         (ident \<in> set (uids box) \<and> GetMessage (mbox box) ident = Inl err0 \<longrightarrow>
            DeleteBitmessageByUID cd box ident = Some (Return (None, box))) \<and>
         (ident \<in> set (uids box) \<and> GetMessage (mbox box) ident = Inr (suffix, msg) \<and>
          (suffix \<noteq> 2 \<or> DecodeBitmessage cd msg = None) \<longrightarrow>
            DeleteBitmessageByUID cd box ident = Some (Return (None, box))) \<and>
         (ident \<in> set (uids box) \<and> GetMessage (mbox box) ident = Inr (2, msg) \<and>
          DecodeBitmessage cd msg = Some bmsg \<and> DeleteMessage (mbox box) ident = Inl err \<longrightarrow>
            DeleteBitmessageByUID cd box ident = Some (Return (Some err, box))) \<and>
         (ident \<in> set (uids box) \<and> GetMessage (mbox box) ident = Inr (2, msg) \<and>
          DecodeBitmessage cd msg = Some bmsg \<and> DeleteMessage (mbox box) ident = Inr f \<longrightarrow>
            DeleteBitmessageByUID cd box ident
              = Some (Return (None,
                  box\<lparr>mbox := f,
                      numRecent := (if HasFlags (Flags (ImapData bmsg)) FlagRecent
                                    then numRecent box - 1 else numRecent box),
                      numUnseen := (if HasFlags (Flags (ImapData bmsg)) FlagSeen
                                    then numUnseen box else numUnseen box - 1),
                      uids := filter (\<lambda>u. u \<noteq> ident) (uids box)\<rparr>)) \<and>
            length (filter (\<lambda>u. u \<noteq> ident) (uids box)) = length (uids box) - 1)"
proof (intro conjI impI)
  assume "ident \<notin> set (uids box)"
  then show "DeleteBitmessageByUID cd box ident = Some (Return (None, box))"
    by (simp add: DeleteBitmessageByUID_def bmsgByUID_lookup[OF s e] then_run_def)
next
  assume "ident \<in> set (uids box) \<and> GetMessage (mbox box) ident = Inl err0"
  then show "DeleteBitmessageByUID cd box ident = Some (Return (None, box))"
    by (simp add: DeleteBitmessageByUID_def bmsgByUID_lookup[OF s e] then_run_def)
next
  assume "ident \<in> set (uids box) \<and> GetMessage (mbox box) ident = Inr (suffix, msg) \<and>
          (suffix \<noteq> 2 \<or> DecodeBitmessage cd msg = None)"
  then show "DeleteBitmessageByUID cd box ident = Some (Return (None, box))"
    by (auto simp: DeleteBitmessageByUID_def bmsgByUID_lookup[OF s e] then_run_def
          decodeBitmessageForImap_def)
next
  assume "ident \<in> set (uids box) \<and> GetMessage (mbox box) ident = Inr (2, msg) \<and>
          DecodeBitmessage cd msg = Some bmsg \<and> DeleteMessage (mbox box) ident = Inl err"
  then show "DeleteBitmessageByUID cd box ident = Some (Return (Some err, box))"
    by (simp add: DeleteBitmessageByUID_def bmsgByUID_lookup[OF s e] then_run_def
          decodeBitmessageForImap_def)
next
  assume a: "ident \<in> set (uids box) \<and> GetMessage (mbox box) ident = Inr (2, msg) \<and>
          DecodeBitmessage cd msg = Some bmsg \<and> DeleteMessage (mbox box) ident = Inr f"
  have d: "distinct (uids box)" using s by (simp add: strict_sorted_iff)
  have c: "cut_uid ident (uids box) = filter (\<lambda>u. u \<noteq> ident) (uids box)"
    using d by (rule cut_uid_filter)
  from a show "DeleteBitmessageByUID cd box ident
              = Some (Return (None,
                  box\<lparr>mbox := f,
                      numRecent := (if HasFlags (Flags (ImapData bmsg)) FlagRecent
                                    then numRecent box - 1 else numRecent box),
                      numUnseen := (if HasFlags (Flags (ImapData bmsg)) FlagSeen
                                    then numUnseen box else numUnseen box - 1),
                      uids := filter (\<lambda>u. u \<noteq> ident) (uids box)\<rparr>))"
    using c
    by (simp add: DeleteBitmessageByUID_def bmsgByUID_lookup[OF s e] then_run_def
          decodeBitmessageForImap_def HasFlags_def Let_def)
  show "length (filter (\<lambda>u. u \<noteq> ident) (uids box)) = length (uids box) - 1"
    using a length_cut_uid[of ident "uids box"] c by simp
qed

theorem DeleteBitmessageByUID_effect_witness:
  "sorted_wrt (<) (uids example_box) \<and> interpolation_exact (uids example_box) \<and>
   7 \<notin> set (uids example_box) \<and>
   DeleteBitmessageByUID example_codec example_box 7 = Some (Return (None, example_box)) \<and>
   10 \<in> set (uids (example_box\<lparr>mbox := example_folder\<lparr>failing := {OpGet}\<rparr>\<rparr>)) \<and>
   GetMessage (mbox (example_box\<lparr>mbox := example_folder\<lparr>failing := {OpGet}\<rparr>\<rparr>)) 10 = Inl IOError \<and>
   DeleteBitmessageByUID example_codec (example_box\<lparr>mbox := example_folder\<lparr>failing := {OpGet}\<rparr>\<rparr>) 10
     = Some (Return (None, example_box\<lparr>mbox := example_folder\<lparr>failing := {OpGet}\<rparr>\<rparr>)) \<and>
   5 \<in> set (uids damaged_box) \<and>
   GetMessage (mbox damaged_box) 5 = Inr (2, []) \<and>
   DecodeBitmessage example_codec [] = None \<and>
   DeleteBitmessageByUID example_codec damaged_box 5 = Some (Return (None, damaged_box)) \<and>
   10 \<in> set (uids (example_box\<lparr>mbox := example_folder\<lparr>failing := {OpDelete}\<rparr>\<rparr>)) \<and>
   GetMessage (mbox (example_box\<lparr>mbox := example_folder\<lparr>failing := {OpDelete}\<rparr>\<rparr>)) 10
     = Inr (2, [0, 2]) \<and>
   DecodeBitmessage example_codec [0, 2] \<noteq> None \<and>
   DeleteMessage (mbox (example_box\<lparr>mbox := example_folder\<lparr>failing := {OpDelete}\<rparr>\<rparr>)) 10
     = Inl IOError \<and>
   DeleteBitmessageByUID example_codec (example_box\<lparr>mbox := example_folder\<lparr>failing := {OpDelete}\<rparr>\<rparr>) 10
     = Some (Return (Some IOError, example_box\<lparr>mbox := example_folder\<lparr>failing := {OpDelete}\<rparr>\<rparr>)) \<and>
   5 \<in> set (uids example_box) \<and>
   GetMessage (mbox example_box) 5 = Inr (2, [32, 1]) \<and>
   DecodeBitmessage example_codec [32, 1] \<noteq> None \<and>
   DeleteMessage (mbox example_box) 5
     = Inr (example_folder\<lparr>entries := [(10, 2, [0, 2]), (15, 2, [1, 3])]\<rparr>) \<and>
   DeleteBitmessageByUID example_codec example_box 5
     = Some (Return (None,
         \<lparr>mbox = \<lparr>entries = [(10, 2, [0, 2]), (15, 2, [1, 3])], next_id = 16, failing = {}\<rparr>,
          sub = None, drafts = False, uids = [10, 15],
          numRecent = 0, numUnseen = 1, nextUID = 16\<rparr>)) \<and>
   length [10 :: 64 word, 15] = length (uids example_box) - 1"
proof -
  let ?unreadable = "example_box\<lparr>mbox := example_folder\<lparr>failing := {OpGet}\<rparr>\<rparr>"
  let ?undeletable = "example_box\<lparr>mbox := example_folder\<lparr>failing := {OpDelete}\<rparr>\<rparr>"
  let ?f = "example_folder\<lparr>entries := [(10, 2, [0, 2]), (15, 2, [1, 3])]\<rparr>"
  let ?m10 = "\<lparr>ImapData = \<lparr>UID = 0, SequenceNumber = 0, Flags = 0, TimeReceived = example_time 100\<rparr>,
               Ack = [2], state = \<lparr>AckReceived = False\<rparr>, Encoding = 2, Object = []\<rparr>"
  let ?m5 = "\<lparr>ImapData = \<lparr>UID = 0, SequenceNumber = 0, Flags = 32, TimeReceived = example_time 100\<rparr>,
              Ack = [1], state = \<lparr>AckReceived = False\<rparr>, Encoding = 2, Object = []\<rparr>"
  have ok1: "sorted_wrt (<) (uids ?unreadable)" "interpolation_exact (uids ?unreadable)"
    using example_box_ok by simp_all
  have ok2: "sorted_wrt (<) (uids damaged_box)" "interpolation_exact (uids damaged_box)"
    using example_box_ok by (simp_all add: damaged_box_def)
  have ok3: "sorted_wrt (<) (uids ?undeletable)" "interpolation_exact (uids ?undeletable)"
    using example_box_ok by simp_all
  have a: "7 \<notin> set (uids example_box)" by (simp add: example_box_def)
  have b: "10 \<in> set (uids ?unreadable)" "GetMessage (mbox ?unreadable) 10 = Inl IOError"
    by (simp_all add: GetMessage_def example_box_def example_folder_def)
  have c: "5 \<in> set (uids damaged_box)" "GetMessage (mbox damaged_box) 5 = Inr (2, [])"
    "DecodeBitmessage example_codec [] = None"
    by (simp_all add: GetMessage_def damaged_box_def example_box_def example_folder_def
          example_codec_def)
  have d: "10 \<in> set (uids ?undeletable)" "GetMessage (mbox ?undeletable) 10 = Inr (2, [0, 2])"
    "DecodeBitmessage example_codec [0, 2] = Some ?m10"
    "DeleteMessage (mbox ?undeletable) 10 = Inl IOError"
    by (simp_all add: GetMessage_def DeleteMessage_def example_box_def example_folder_def
          example_codec_def)
  have e: "5 \<in> set (uids example_box)" "GetMessage (mbox example_box) 5 = Inr (2, [32, 1])"
    "DecodeBitmessage example_codec [32, 1] = Some ?m5"
    "DeleteMessage (mbox example_box) 5 = Inr ?f"
    by (simp_all add: GetMessage_def DeleteMessage_def example_box_def example_folder_def
          example_codec_def)
  have 1: "DeleteBitmessageByUID example_codec example_box 7 = Some (Return (None, example_box))"
    using DeleteBitmessageByUID_effect[OF example_box_ok, where ident = 7 and cd = example_codec] a
    by simp
  have 2: "DeleteBitmessageByUID example_codec ?unreadable 10 = Some (Return (None, ?unreadable))"
    using DeleteBitmessageByUID_effect[OF ok1, where ident = 10 and cd = example_codec
            and ?err0.0 = IOError] b
    by blast
  have 3: "DeleteBitmessageByUID example_codec damaged_box 5 = Some (Return (None, damaged_box))"
    using DeleteBitmessageByUID_effect[OF ok2, where ident = 5 and cd = example_codec
            and suffix = 2 and msg = "[]"] c
    by blast
  have 4: "DeleteBitmessageByUID example_codec ?undeletable 10
             = Some (Return (Some IOError, ?undeletable))"
    using DeleteBitmessageByUID_effect[OF ok3, where ident = 10 and cd = example_codec
            and msg = "[0, 2]" and bmsg = ?m10 and err = IOError] d
    by blast
  have 5: "DeleteBitmessageByUID example_codec example_box 5
             = Some (Return (None,
                 example_box\<lparr>mbox := ?f,
                   numRecent := (if HasFlags (Flags (ImapData ?m5)) FlagRecent
                                 then numRecent example_box - 1 else numRecent example_box),
                   numUnseen := (if HasFlags (Flags (ImapData ?m5)) FlagSeen
                                 then numUnseen example_box else numUnseen example_box - 1),
                   uids := filter (\<lambda>u. u \<noteq> 5) (uids example_box)\<rparr>)) \<and>
           length (filter (\<lambda>u. u \<noteq> 5) (uids example_box)) = length (uids example_box) - 1"
    using DeleteBitmessageByUID_effect[OF example_box_ok, where ident = 5 and cd = example_codec
            and msg = "[32, 1]" and bmsg = ?m5 and f = ?f] e
    by blast
  have 6: "example_box\<lparr>mbox := ?f,
                   numRecent := (if HasFlags (Flags (ImapData ?m5)) FlagRecent
                                 then numRecent example_box - 1 else numRecent example_box),
                   numUnseen := (if HasFlags (Flags (ImapData ?m5)) FlagSeen
                                 then numUnseen example_box else numUnseen example_box - 1),
                   uids := filter (\<lambda>u. u \<noteq> 5) (uids example_box)\<rparr>
           = \<lparr>mbox = \<lparr>entries = [(10, 2, [0, 2]), (15, 2, [1, 3])], next_id = 16, failing = {}\<rparr>,
              sub = None, drafts = False, uids = [10, 15],
              numRecent = 0, numUnseen = 1, nextUID = 16\<rparr>"
    by (simp add: example_box_def example_folder_def HasFlags_def FlagRecent_def FlagSeen_def)
  have 7: "length [10 :: 64 word, 15] = length (uids example_box) - 1"
    by (simp add: example_box_def)
  have 8: "DecodeBitmessage example_codec [0, 2] \<noteq> None" "DecodeBitmessage example_codec [32, 1] \<noteq> None"
    using d(3) e(3) by simp_all
  show ?thesis
    using example_box_ok a 1 b 2 c 3 d(1,2,4) 4 e(1,2,4) 5 7 8 unfolding 6
    by (intro conjI) blast+
qed

text \<open>
  C6.  The claim: a \<open>Save\<close> that carries a non-zero identifier and a date other than
  the one stored for that identifier fails with an error, and the store, the index
  and the counts stay as they were.  \<open>Save\<close> reads the stored message through
  \<open>BitmessageByUID\<close>, which runs \<open>GetSequenceNumber\<close> on the index.  Take the mailbox
  built over the messages 1, \<open>2\<^sup>6\<^sup>0\<close> and \<open>2\<^sup>6\<^sup>0 + 1\<close>, all three stored and
  decodable, and a \<open>Save\<close> that carries the identifier \<open>2\<^sup>6\<^sup>0\<close> and a date other than
  the stored one.  The search for \<open>2\<^sup>6\<^sup>0\<close> never returns (the conversion to \<open>float64\<close>
  rounds \<open>2\<^sup>6\<^sup>0 - 1\<close> up to \<open>2\<^sup>6\<^sup>0\<close>, as in C1), so \<open>Save\<close> never gets to compare the
  dates: it returns no error, and nothing else either.
\<close>

theorem Save_with_changed_date_never_returns:
  "NewMailbox example_codec wide_folder = Inr wide_box \<and>
   sorted_wrt (<) (uids wide_box) \<and>
   2 ^ 60 \<in> set (uids wide_box) \<and>
   GetMessage (mbox wide_box) (2 ^ 60) = Inr (2, [0, 2]) \<and>
   map_option (\<lambda>previous. TimeReceived (ImapData previous)) (DecodeBitmessage example_codec [0, 2])
     = Some (example_time 100) \<and>
   example_time 100 \<noteq> example_time 101 \<and>
   Save example_codec wide_box
     \<lparr>ImapUID = 2 ^ 60, ImapSequenceNumber = 2, ImapFlags = 1, Date = example_time 101,
      Content = [2]\<rparr> = None"
proof -
  have g: "GetMessage (mbox wide_box) (2 ^ 60) = Inr (2, [0, 2])"
    by (simp add: GetMessage_def wide_box_def wide_folder_def)
  have d: "map_option (\<lambda>previous. TimeReceived (ImapData previous))
             (DecodeBitmessage example_codec [0, 2]) = Some (example_time 100)"
    by (simp add: example_codec_def)
  have t: "example_time 100 \<noteq> example_time 101" by (simp add: example_time_def)
  have u: "2 ^ 60 \<in> set (uids wide_box)" by (simp add: wide_box_def)
  have nz: "(2 ^ 60 :: 64 word) \<noteq> 0" by simp
  have s: "Save example_codec wide_box
     \<lparr>ImapUID = 2 ^ 60, ImapSequenceNumber = 2, ImapFlags = 1, Date = example_time 101,
      Content = [2]\<rparr> = None"
    using nz by (simp add: Save_def wide_lookup then_run_def Let_def example_codec_def wide_box_def[THEN arg_cong, of drafts])
  show ?thesis using ev_new_wide wide_box_sorted u g d t s by simp
qed

text \<open>
  C7.  The claim: on an empty mailbox both resolutions return an empty result, and
  a range with a malformed bound ends the resolution with what the ranges before it
  gave.  The second part does not hold of every such range.  When the lower bound is
  the last-message marker \<open>*\<close>, the loops append the last message and go on without
  reading the upper bound (the comment there: ``If Min is *, Max should always be
  Nil''): in the example mailbox the set of the ranges \<open>*:junk\<close> and \<open>5\<close> resolves by
  identifier to the messages 15 and 5, and the set \<open>*:junk\<close>, \<open>*\<close> resolves by sequence
  number to the message 15 twice, where no range comes before the malformed bound.
\<close>

theorem set_resolution_counterexample:
  "bitmessageSetByUID example_codec example_box
     [\<lparr>Min_bound = SeqLast, Max_bound = SeqMalformed\<rparr>, \<lparr>Min_bound = SeqValue 5, Max_bound = SeqNil\<rparr>]
     = Some (Return
         [Some \<lparr>ImapData = \<lparr>UID = 15, SequenceNumber = 3, Flags = 1, TimeReceived = example_time 100\<rparr>,
                Ack = [3], state = \<lparr>AckReceived = False\<rparr>, Encoding = 2, Object = []\<rparr>,
          Some \<lparr>ImapData = \<lparr>UID = 5, SequenceNumber = 1, Flags = 32, TimeReceived = example_time 100\<rparr>,
                Ack = [1], state = \<lparr>AckReceived = False\<rparr>, Encoding = 2, Object = []\<rparr>]) \<and>
   bitmessageSetBySequenceNumber example_codec example_box
     [\<lparr>Min_bound = SeqLast, Max_bound = SeqMalformed\<rparr>, \<lparr>Min_bound = SeqLast, Max_bound = SeqNil\<rparr>]
     = Some (Return
         [Some \<lparr>ImapData = \<lparr>UID = 15, SequenceNumber = 3, Flags = 1, TimeReceived = example_time 100\<rparr>,
                Ack = [3], state = \<lparr>AckReceived = False\<rparr>, Encoding = 2, Object = []\<rparr>,
          Some \<lparr>ImapData = \<lparr>UID = 15, SequenceNumber = 3, Flags = 1, TimeReceived = example_time 100\<rparr>,
                Ack = [3], state = \<lparr>AckReceived = False\<rparr>, Encoding = 2, Object = []\<rparr>])"
  by (simp add: bitmessageSetByUID_def bitmessageSetBySequenceNumber_def ev_messages
        Last_seq_def Nil_seq_def Value_seq_def ev_last ev_lookup_first then_run_def)

text \<open>
  What holds instead.  On a mailbox with an empty index both resolutions return an
  empty result.  On a mailbox that is not empty, take a range with a malformed bound
  whose lower bound is not \<open>*\<close>, and before it ranges of which each is resolved: the
  pass of the loop over it returns and adds messages (\<open>rangeByUID\<close>,
  \<open>rangeBySequenceNumber\<close>).  Then the resolution returns, whatever ranges come after:
  its result is what those ranges added, one after the other in the order of the
  ranges, and nothing else.
\<close>

theorem set_resolution_partial_result:
  "(uids box = [] \<longrightarrow>
      bitmessageSetByUID cd box seqset = Some (Return []) \<and>
      bitmessageSetBySequenceNumber cd box seqset = Some (Return [])) \<and>
   (messages box \<noteq> 0 \<and>
    (Min_bound r = SeqMalformed \<or> Max_bound r = SeqMalformed) \<and> Min_bound r \<noteq> SeqLast \<and>
    list_all2 (\<lambda>p xs. rangeByUID cd box p = Some (Return (Adds xs))) pre xss \<longrightarrow>
      bitmessageSetByUID cd box (pre @ r # post) = Some (Return (concat xss))) \<and>
   (messages box \<noteq> 0 \<and>
    (Min_bound r = SeqMalformed \<or> Max_bound r = SeqMalformed) \<and> Min_bound r \<noteq> SeqLast \<and>
    list_all2 (\<lambda>p ys. rangeBySequenceNumber cd box p = Some (Return (Adds ys))) pre yss \<longrightarrow>
      bitmessageSetBySequenceNumber cd box (pre @ r # post) = Some (Return (concat yss)))"
proof (intro conjI impI)
  assume "uids box = []"
  then show "bitmessageSetByUID cd box seqset = Some (Return [])"
    and "bitmessageSetBySequenceNumber cd box seqset = Some (Return [])"
    by (simp_all add: bitmessageSetByUID_def bitmessageSetBySequenceNumber_def messages_def)
next
  assume a: "messages box \<noteq> 0 \<and>
    (Min_bound r = SeqMalformed \<or> Max_bound r = SeqMalformed) \<and> Min_bound r \<noteq> SeqLast \<and>
    list_all2 (\<lambda>p xs. rangeByUID cd box p = Some (Return (Adds xs))) pre xss"
  then have m: "(Min_bound r = SeqMalformed \<or> Max_bound r = SeqMalformed) \<and> Min_bound r \<noteq> SeqLast"
    and l: "list_all2 (\<lambda>p xs. rangeByUID cd box p = Some (Return (Adds xs))) pre xss"
    by simp_all
  show "bitmessageSetByUID cd box (pre @ r # post) = Some (Return (concat xss))"
    using a setByUID_loop_prefix[OF l malformed_range_ends(1)[OF m], of post "[]"]
    by (simp add: bitmessageSetByUID_def)
next
  assume a: "messages box \<noteq> 0 \<and>
    (Min_bound r = SeqMalformed \<or> Max_bound r = SeqMalformed) \<and> Min_bound r \<noteq> SeqLast \<and>
    list_all2 (\<lambda>p ys. rangeBySequenceNumber cd box p = Some (Return (Adds ys))) pre yss"
  then have m: "(Min_bound r = SeqMalformed \<or> Max_bound r = SeqMalformed) \<and> Min_bound r \<noteq> SeqLast"
    and l: "list_all2 (\<lambda>p ys. rangeBySequenceNumber cd box p = Some (Return (Adds ys))) pre yss"
    by simp_all
  show "bitmessageSetBySequenceNumber cd box (pre @ r # post) = Some (Return (concat yss))"
    using a setBySequenceNumber_loop_prefix[OF l malformed_range_ends(2)[OF m], of post "[]"]
    by (simp add: bitmessageSetBySequenceNumber_def)
qed

theorem set_resolution_partial_result_witness:
  "uids (example_box\<lparr>uids := []\<rparr>) = [] \<and>
   bitmessageSetByUID example_codec (example_box\<lparr>uids := []\<rparr>)
     [\<lparr>Min_bound = SeqValue 5, Max_bound = SeqNil\<rparr>] = Some (Return []) \<and>
   bitmessageSetBySequenceNumber example_codec (example_box\<lparr>uids := []\<rparr>)
     [\<lparr>Min_bound = SeqValue 5, Max_bound = SeqNil\<rparr>] = Some (Return []) \<and>
   messages example_box \<noteq> 0 \<and>
   rangeByUID example_codec example_box \<lparr>Min_bound = SeqValue 5, Max_bound = SeqNil\<rparr>
     = Some (Return (Adds
         [Some \<lparr>ImapData = \<lparr>UID = 5, SequenceNumber = 1, Flags = 32, TimeReceived = example_time 100\<rparr>,
                Ack = [1], state = \<lparr>AckReceived = False\<rparr>, Encoding = 2, Object = []\<rparr>])) \<and>
   rangeByUID example_codec example_box \<lparr>Min_bound = SeqValue 10, Max_bound = SeqLast\<rparr>
     = Some (Return (Adds
         [Some \<lparr>ImapData = \<lparr>UID = 10, SequenceNumber = 2, Flags = 0, TimeReceived = example_time 100\<rparr>,
                Ack = [2], state = \<lparr>AckReceived = False\<rparr>, Encoding = 2, Object = []\<rparr>,
          Some \<lparr>ImapData = \<lparr>UID = 15, SequenceNumber = 3, Flags = 1, TimeReceived = example_time 100\<rparr>,
                Ack = [3], state = \<lparr>AckReceived = False\<rparr>, Encoding = 2, Object = []\<rparr>])) \<and>
   bitmessageSetByUID example_codec example_box
     [\<lparr>Min_bound = SeqValue 5, Max_bound = SeqNil\<rparr>, \<lparr>Min_bound = SeqValue 10, Max_bound = SeqLast\<rparr>,
      \<lparr>Min_bound = SeqValue 5, Max_bound = SeqMalformed\<rparr>, \<lparr>Min_bound = SeqLast, Max_bound = SeqNil\<rparr>]
     = Some (Return
         [Some \<lparr>ImapData = \<lparr>UID = 5, SequenceNumber = 1, Flags = 32, TimeReceived = example_time 100\<rparr>,
                Ack = [1], state = \<lparr>AckReceived = False\<rparr>, Encoding = 2, Object = []\<rparr>,
          Some \<lparr>ImapData = \<lparr>UID = 10, SequenceNumber = 2, Flags = 0, TimeReceived = example_time 100\<rparr>,
                Ack = [2], state = \<lparr>AckReceived = False\<rparr>, Encoding = 2, Object = []\<rparr>,
          Some \<lparr>ImapData = \<lparr>UID = 15, SequenceNumber = 3, Flags = 1, TimeReceived = example_time 100\<rparr>,
                Ack = [3], state = \<lparr>AckReceived = False\<rparr>, Encoding = 2, Object = []\<rparr>]) \<and>
   rangeBySequenceNumber example_codec example_box \<lparr>Min_bound = SeqLast, Max_bound = SeqNil\<rparr>
     = Some (Return (Adds
         [Some \<lparr>ImapData = \<lparr>UID = 15, SequenceNumber = 3, Flags = 1, TimeReceived = example_time 100\<rparr>,
                Ack = [3], state = \<lparr>AckReceived = False\<rparr>, Encoding = 2, Object = []\<rparr>])) \<and>
   rangeBySequenceNumber example_codec example_box \<lparr>Min_bound = SeqValue 2, Max_bound = SeqNil\<rparr>
     = Some (Return (Adds [None])) \<and>
   bitmessageSetBySequenceNumber example_codec example_box
     [\<lparr>Min_bound = SeqLast, Max_bound = SeqNil\<rparr>, \<lparr>Min_bound = SeqValue 2, Max_bound = SeqNil\<rparr>,
      \<lparr>Min_bound = SeqMalformed, Max_bound = SeqNil\<rparr>, \<lparr>Min_bound = SeqLast, Max_bound = SeqNil\<rparr>]
     = Some (Return
         [Some \<lparr>ImapData = \<lparr>UID = 15, SequenceNumber = 3, Flags = 1, TimeReceived = example_time 100\<rparr>,
                Ack = [3], state = \<lparr>AckReceived = False\<rparr>, Encoding = 2, Object = []\<rparr>,
          None])"
proof -
  let ?m5 = "\<lparr>ImapData = \<lparr>UID = 5, SequenceNumber = 1, Flags = 32, TimeReceived = example_time 100\<rparr>,
              Ack = [1], state = \<lparr>AckReceived = False\<rparr>, Encoding = 2, Object = []\<rparr>"
  let ?m10 = "\<lparr>ImapData = \<lparr>UID = 10, SequenceNumber = 2, Flags = 0, TimeReceived = example_time 100\<rparr>,
               Ack = [2], state = \<lparr>AckReceived = False\<rparr>, Encoding = 2, Object = []\<rparr>"
  let ?m15 = "\<lparr>ImapData = \<lparr>UID = 15, SequenceNumber = 3, Flags = 1, TimeReceived = example_time 100\<rparr>,
               Ack = [3], state = \<lparr>AckReceived = False\<rparr>, Encoding = 2, Object = []\<rparr>"
  let ?one = "[\<lparr>Min_bound = SeqValue 5, Max_bound = SeqNil\<rparr>]"
  let ?p1 = "\<lparr>Min_bound = SeqValue 5, Max_bound = SeqNil\<rparr>"
  let ?p2 = "\<lparr>Min_bound = SeqValue 10, Max_bound = SeqLast\<rparr>"
  let ?q1 = "\<lparr>Min_bound = SeqLast, Max_bound = SeqNil\<rparr>"
  let ?q2 = "\<lparr>Min_bound = SeqValue 2, Max_bound = SeqNil\<rparr>"
  let ?r1 = "\<lparr>Min_bound = SeqValue 5, Max_bound = SeqMalformed\<rparr>"
  let ?r2 = "\<lparr>Min_bound = SeqMalformed, Max_bound = SeqNil\<rparr>"
  have e: "uids (example_box\<lparr>uids := []\<rparr>) = []" by simp
  have n: "messages example_box \<noteq> 0" by (simp add: ev_messages)
  have p1: "rangeByUID example_codec example_box ?p1 = Some (Return (Adds [Some ?m5]))"
    by (simp add: rangeByUID_def Last_seq_def Nil_seq_def Value_seq_def ev_lookup_first then_run_def)
  have p2: "rangeByUID example_codec example_box ?p2 = Some (Return (Adds [Some ?m10, Some ?m15]))"
    by (simp add: rangeByUID_def Last_seq_def Nil_seq_def Value_seq_def ev_since then_run_def
          append_all_def)
  have i: "index (uids example_box) (Suc 0) = Some (Return 10)"
    by (simp add: index_def example_box_def)
  have q1: "rangeBySequenceNumber example_codec example_box ?q1 = Some (Return (Adds [Some ?m15]))"
    by (simp add: rangeBySequenceNumber_def Last_seq_def ev_last then_run_def)
  have q2: "rangeBySequenceNumber example_codec example_box ?q2 = Some (Return (Adds [None]))"
    by (simp add: rangeBySequenceNumber_def Last_seq_def Nil_seq_def Value_seq_def ev_messages i
          ev_by_sequence_number then_run_def)
  have l1: "list_all2 (\<lambda>p xs. rangeByUID example_codec example_box p = Some (Return (Adds xs)))
              [?p1, ?p2] [[Some ?m5], [Some ?m10, Some ?m15]]"
    using p1 p2 by simp
  have l2: "list_all2 (\<lambda>p ys. rangeBySequenceNumber example_codec example_box p = Some (Return (Adds ys)))
              [?q1, ?q2] [[Some ?m15], [None]]"
    using q1 q2 by simp
  have 1: "bitmessageSetByUID example_codec (example_box\<lparr>uids := []\<rparr>) ?one = Some (Return [])"
    "bitmessageSetBySequenceNumber example_codec (example_box\<lparr>uids := []\<rparr>) ?one = Some (Return [])"
    using set_resolution_partial_result[where box = "example_box\<lparr>uids := []\<rparr>"
            and cd = example_codec and seqset = ?one] e
    by blast+
  have 2: "bitmessageSetByUID example_codec example_box ([?p1, ?p2] @ ?r1 # [?q1])
             = Some (Return (concat [[Some ?m5], [Some ?m10, Some ?m15]]))"
    using set_resolution_partial_result[where box = example_box and cd = example_codec
            and r = ?r1 and pre = "[?p1, ?p2]" and post = "[?q1]"
            and xss = "[[Some ?m5], [Some ?m10, Some ?m15]]"] n l1
    by simp
  have 3: "bitmessageSetBySequenceNumber example_codec example_box ([?q1, ?q2] @ ?r2 # [?q1])
             = Some (Return (concat [[Some ?m15], [None]]))"
    using set_resolution_partial_result[where box = example_box and cd = example_codec
            and r = ?r2 and pre = "[?q1, ?q2]" and post = "[?q1]"
            and yss = "[[Some ?m15], [None]]"] n l2
    by simp
  show ?thesis
    using e 1 n p1 p2 2 q1 q2 3 by simp
qed

text \<open>
  C8.  The claim: a store failure during the save that \<open>AddNew\<close> runs aborts the
  operation and reaches the caller of \<open>AddNew\<close>.  \<open>AddNew\<close> calls \<open>saveBitmessage\<close> and
  drops what it returns: whatever happens, \<open>AddNew\<close> returns \<open>nil\<close>.  Over the store
  whose insertions fail, \<open>saveBitmessage\<close> returns the I/O error and \<open>AddNew\<close> returns
  \<open>nil\<close>, with the mailbox unchanged.  (\<open>Save\<close>, the other caller, returns the error.)
\<close>

theorem AddNew_returns_nil_when_the_store_fails:
  "fst (AddNew cd box bmsg flags now) = None \<and>
   saveBitmessage example_codec failing_box
     (example_message\<lparr>ImapData := \<lparr>UID = 0, SequenceNumber = messages failing_box + 1,
                                     Flags = FlagRecent, TimeReceived = example_time 200\<rparr>\<rparr>)
     = (Some IOError, failing_box) \<and>
   AddNew example_codec failing_box example_message FlagRecent (example_time 200) = (None, failing_box)"
proof -
  have 1: "fst (AddNew cd box bmsg flags now) = None" by (simp add: AddNew_def Let_def)
  have 2: "saveBitmessage example_codec failing_box
     (example_message\<lparr>ImapData := \<lparr>UID = 0, SequenceNumber = messages failing_box + 1,
                                     Flags = FlagRecent, TimeReceived = example_time 200\<rparr>\<rparr>)
     = (Some IOError, failing_box)"
    by (simp add: saveBitmessage_def example_codec_def InsertNewMessage_def failing_box_def)
  have 3: "AddNew example_codec failing_box example_message FlagRecent (example_time 200) = (None, failing_box)"
    by (simp add: AddNew_def Let_def 2)
  show ?thesis using 1 2 3 by simp
qed

text \<open>
  C9.  The index \<open>uids\<close> is strictly ascending (so without duplicates) after
  construction and after every mutation that returns, provided the store
  enumerates each identifier once (for \<open>AddNew\<close> and \<open>Save\<close>: the store as the call
  has written it, which is the one the refresh at the end enumerates).  Construction and a refresh that succeeds sort
  what the enumeration gave; a refresh that fails leaves the index as it was; \<open>AddNew\<close>
  and \<open>Save\<close> end in a refresh of the store they wrote to, or leave the index as it
  was; \<open>DeleteBitmessageByUID\<close> cuts one identifier out or leaves the index as it was.
\<close>

theorem uids_strictly_ascending_invariant:
  "(distinct (map fst (entries f)) \<and> NewMailbox cd f = Inr box0 \<longrightarrow> sorted_wrt (<) (uids box0)) \<and>
   (distinct (map fst (entries (mbox box))) \<and> refresh cd box = (None, box1)
      \<longrightarrow> sorted_wrt (<) (uids box1)) \<and>
   (sorted_wrt (<) (uids box) \<and> refresh cd box = (Some err, box2) \<longrightarrow> sorted_wrt (<) (uids box2)) \<and>
   (sorted_wrt (<) (uids box) \<and> AddNew cd box bmsg flags now = (r3, box3) \<and>
    distinct (map fst (entries (mbox box3))) \<longrightarrow> sorted_wrt (<) (uids box3)) \<and>
   (sorted_wrt (<) (uids box) \<and> Save cd box email = Some (Return (r4, box4)) \<and>
    distinct (map fst (entries (mbox box4))) \<longrightarrow> sorted_wrt (<) (uids box4)) \<and>
   (sorted_wrt (<) (uids box) \<and> DeleteBitmessageByUID cd box ident = Some (Return (r5, box5))
      \<longrightarrow> sorted_wrt (<) (uids box5))"
proof (intro conjI impI)
  assume a: "distinct (map fst (entries f)) \<and> NewMailbox cd f = Inr box0"
  let ?m = "\<lparr>mbox = f, sub = None, drafts = False, uids = [], numRecent = 0, numUnseen = 0,
             nextUID = 0\<rparr>"
  from a have "refresh cd ?m = (None, box0)"
    by (auto simp: NewMailbox_def split: prod.splits option.splits)
  from refresh_index[OF this] a show "sorted_wrt (<) (uids box0)" by simp
next
  assume a: "distinct (map fst (entries (mbox box))) \<and> refresh cd box = (None, box1)"
  then have "refresh cd box = (None, box1)" by simp
  from refresh_index[OF this] a show "sorted_wrt (<) (uids box1)" by simp
next
  assume a: "sorted_wrt (<) (uids box) \<and> refresh cd box = (Some err, box2)"
  then have "refresh cd box = (Some err, box2)" by simp
  from refresh_index[OF this] a show "sorted_wrt (<) (uids box2)" by simp
next
  assume a: "sorted_wrt (<) (uids box) \<and> AddNew cd box bmsg flags now = (r3, box3) \<and>
    distinct (map fst (entries (mbox box3)))"
  let ?b = "bmsg\<lparr>ImapData := \<lparr>UID = 0, SequenceNumber = messages box + 1,
                                     Flags = flags, TimeReceived = now\<rparr>\<rparr>"
  from a have "saveBitmessage cd box ?b = (fst (saveBitmessage cd box ?b), box3)"
    by (auto simp: AddNew_def Let_def)
  from saveBitmessage_index[OF this] a show "sorted_wrt (<) (uids box3)" by simp
next
  assume a: "sorted_wrt (<) (uids box) \<and> Save cd box email = Some (Return (r4, box4)) \<and>
    distinct (map fst (entries (mbox box4)))"
  then have s: "sorted_wrt (<) (uids box)" and d: "distinct (map fst (entries (mbox box4)))"
    and v: "Save cd box email = Some (Return (r4, box4))" by simp_all
  from v have "box4 = box \<or> (\<exists>msg. saveBitmessage cd box msg = (r4, box4))"
    by (auto simp: Save_def Let_def then_run_def
             split: option.splits outcome.splits if_splits)
  then show "sorted_wrt (<) (uids box4)"
    using s d saveBitmessage_index by blast
next
  assume a: "sorted_wrt (<) (uids box) \<and> DeleteBitmessageByUID cd box ident = Some (Return (r5, box5))"
  then have s: "sorted_wrt (<) (uids box)"
    and v: "DeleteBitmessageByUID cd box ident = Some (Return (r5, box5))" by simp_all
  from v have "uids box5 = uids box \<or> uids box5 = cut_uid ident (uids box)"
    by (auto simp: DeleteBitmessageByUID_def Let_def then_run_def
             split: option.splits outcome.splits sum.splits if_splits)
  then show "sorted_wrt (<) (uids box5)"
    using s sorted_wrt_cut_uid[of "(<)" "uids box" ident] by auto
qed

theorem uids_strictly_ascending_invariant_witness:
  "distinct (map fst (entries example_folder)) \<and>
   NewMailbox example_codec example_folder = Inr example_box \<and>
   sorted_wrt (<) (uids example_box) \<and>
   refresh example_codec example_box = (None, example_box) \<and>
   fst (refresh example_codec damaged_box) = Some DecodeFailed \<and>
   sorted_wrt (<) (uids (snd (refresh example_codec damaged_box))) \<and>
   distinct (map fst (entries (mbox (snd (AddNew example_codec example_box example_message FlagRecent (example_time 200)))))) \<and>
   uids (snd (AddNew example_codec example_box example_message FlagRecent (example_time 200)))
     = [5, 10, 15, 16] \<and>
   sorted_wrt (<) (uids (snd (AddNew example_codec example_box example_message FlagRecent (example_time 200)))) \<and>
   (\<exists>box4. Save example_codec example_box
              \<lparr>ImapUID = 10, ImapSequenceNumber = 2, ImapFlags = 1, Date = example_time 100, Content = [2]\<rparr>
            = Some (Return (None, box4)) \<and>
          distinct (map fst (entries (mbox box4))) \<and> uids box4 = [5, 10, 15] \<and>
          sorted_wrt (<) (uids box4)) \<and>
   (\<exists>box5. DeleteBitmessageByUID example_codec example_box 10 = Some (Return (None, box5)) \<and>
          uids box5 = [5, 15] \<and> sorted_wrt (<) (uids box5))"
proof -
  let ?email = "\<lparr>ImapUID = 10, ImapSequenceNumber = 2, ImapFlags = 1, Date = example_time 100, Content = [2]\<rparr>"
  let ?box3 = "snd (AddNew example_codec example_box example_message FlagRecent (example_time 200))"
  let ?box2 = "snd (refresh example_codec damaged_box)"
  obtain box4 where s4: "Save example_codec example_box ?email = Some (Return (None, box4))"
    and d4: "distinct (map fst (entries (mbox box4)))" and u4: "uids box4 = [5, 10, 15]"
    using ev_save by simp
  obtain box5 where s5: "DeleteBitmessageByUID example_codec example_box 10 = Some (Return (None, box5))"
    and u5: "uids box5 = [5, 15]"
    using ev_delete by simp
  have d0: "distinct (map fst (entries example_folder))" by (simp add: example_folder_def)
  have d1: "distinct (map fst (entries (mbox example_box)))"
    by (simp add: example_box_def example_folder_def)
  have a3: "AddNew example_codec example_box example_message FlagRecent (example_time 200) = (None, ?box3)"
    by (simp add: ev_addnew)
  have d3: "distinct (map fst (entries (mbox ?box3)))" by (simp add: ev_addnew)
  have u3: "uids ?box3 = [5, 10, 15, 16]" by (simp add: ev_addnew)
  have r2: "refresh example_codec damaged_box = (Some DecodeFailed, ?box2)"
    by (simp add: ev_refresh_damaged)
  have sd: "sorted_wrt (<) (uids damaged_box)" by (simp add: damaged_box_def example_box_def)
  note w = uids_strictly_ascending_invariant[where cd = example_codec and f = example_folder
      and ?box0.0 = example_box and box = example_box and ?box1.0 = example_box
      and bmsg = example_message and flags = FlagRecent and now = "example_time 200" and ?r3.0 = None
      and ?box3.0 = ?box3 and email = ?email and ?r4.0 = None and ?box4.0 = box4
      and ident = 10 and ?r5.0 = None and ?box5.0 = box5]
  note w2 = uids_strictly_ascending_invariant[where cd = example_codec and box = damaged_box
      and err = DecodeFailed and ?box2.0 = ?box2]
  have 1: "sorted_wrt (<) (uids example_box)" using w d0 ev_new by blast
  have 3: "sorted_wrt (<) (uids ?box3)" using w 1 a3 d3 by blast
  have 4: "sorted_wrt (<) (uids box4)" using w 1 s4 d4 by blast
  have 5: "sorted_wrt (<) (uids box5)" using w 1 s5 by blast
  have 2: "sorted_wrt (<) (uids ?box2)" using w2 sd r2 by blast
  have f2: "fst (refresh example_codec damaged_box) = Some DecodeFailed"
    by (simp add: ev_refresh_damaged)
  show ?thesis
    using d0 ev_new 1 ev_refresh f2 2 d3 u3 3 s4 d4 u4 4 s5 u5 5 by auto
qed

text \<open>
  C10.  \<open>LastUID\<close> reads \<open>uids[len(uids)-1]\<close> with no test for an empty index.  On a
  mailbox with at least one indexed message the index is in range and the result is
  the last identifier cut to 32 bits; on the empty index the read is out of range and
  the call panics.
\<close>

theorem LastUID_needs_nonempty_index:
  "(uids box \<noteq> [] \<longrightarrow> length (uids box) - 1 < length (uids box) \<and>
       LastUID box = Return (ucast (last (uids box)))) \<and>
   (uids box = [] \<longrightarrow> LastUID box = IndexOutOfRange)"
  by (simp add: LastUID_def last_conv_nth)

theorem LastUID_needs_nonempty_index_witness:
  "uids example_box \<noteq> [] \<and> LastUID example_box = Return 15 \<and>
   uids (example_box\<lparr>uids := [2 ^ 32 + 7]\<rparr>) \<noteq> [] \<and>
   LastUID (example_box\<lparr>uids := [2 ^ 32 + 7]\<rparr>) = Return 7 \<and>
   uids (example_box\<lparr>uids := []\<rparr>) = [] \<and>
   LastUID (example_box\<lparr>uids := []\<rparr>) = IndexOutOfRange"
  using LastUID_needs_nonempty_index[of example_box]
        LastUID_needs_nonempty_index[of "example_box\<lparr>uids := [2 ^ 32 + 7]\<rparr>"]
        LastUID_needs_nonempty_index[of "example_box\<lparr>uids := []\<rparr>"]
  by (simp add: example_box_def)

end
